theory Spec2Isabelle
  imports Complex_Main "HOL-Library.AList" "HOL-Library.Product_Lexorder"
begin

section \<open>Strings\<close>

text \<open>
  Python strings are modelled as \<open>string\<close> (ASCII character lists): \<open>lower\<close> maps
  the letters A..Z, \<open>strip\<close> removes the ASCII characters for which \<open>str.isspace\<close>
  holds, and the digits of the pattern \<open>\d\<close> are 0..9.
\<close>

definition lower_char :: "char \<Rightarrow> char" where
  "lower_char c =
     (case map_of (zip ''ABCDEFGHIJKLMNOPQRSTUVWXYZ'' ''abcdefghijklmnopqrstuvwxyz'') c of
        None \<Rightarrow> c
      | Some l \<Rightarrow> l)"

definition lower :: "string \<Rightarrow> string" where
  "lower s = map lower_char s"

definition endswith :: "string \<Rightarrow> string \<Rightarrow> bool" where
  "endswith s suffix =
     (length suffix \<le> length s \<and> drop (length s - length suffix) s = suffix)"

definition is_space :: "char \<Rightarrow> bool" where
  "is_space c =
     (c \<in> set [CHR '' '', CHR 0x09, CHR 0x0A, CHR 0x0B, CHR 0x0C, CHR 0x0D,
                CHR 0x1C, CHR 0x1D, CHR 0x1E, CHR 0x1F])"

definition strip :: "string \<Rightarrow> string" where
  "strip s = rev (dropWhile is_space (rev (dropWhile is_space s)))"

definition is_digit :: "char \<Rightarrow> bool" where
  "is_digit c = (c \<in> set ''0123456789'')"

definition digit_val :: "char \<Rightarrow> nat" where
  "digit_val c = of_char c - 48"

text \<open>\<open>tag.find("}")\<close>: the index of the first occurrence, \<open>None\<close> for Python's -1.\<close>

fun find_char :: "char \<Rightarrow> string \<Rightarrow> nat option" where
  "find_char x [] = None"
| "find_char x (c # cs) =
     (if c = x then Some 0 else map_option Suc (find_char x cs))"

section \<open>Exceptions\<close>

datatype exn =
    FileNotFoundError
  | NotADirectoryError
  | PermissionError
  | AttributeError
  | KeyError
  | ValueError

section \<open>What the XML library returns\<close>

text \<open>
  \<open>ET\<close> is lxml when it can be imported and \<open>xml.etree.ElementTree\<close> otherwise.
  The children of an lxml element include the comments and processing instructions of
  the document, and the \<open>tag\<close> of such a node is a function object, not a string;
  the standard library drops these nodes while parsing. A tag is therefore a string or
  a callable, and a tree parsed by the standard library has string tags only.
\<close>

datatype tag = Str string | Callable

datatype xml =
  Element (tag: tag) (attrib: "(string \<times> string) list") (elem_text: "string option")
          (children: "xml list")

text \<open>\<open>ET.parse\<close> of a file: it raises, or gives a tree with a root.\<close>

datatype parsed = ParseError | Document (getroot: xml)

text \<open>\<open>elem.iter()\<close>: the element and its descendants in document order.\<close>

fun iter :: "xml \<Rightarrow> xml list" where
  "iter (Element t a x cs) = Element t a x cs # concat (map iter cs)"

section \<open>The file system\<close>

text \<open>
  One snapshot of a directory tree. A file carries what \<open>stat\<close> and \<open>ET.parse\<close>
  give for it: \<open>st_mtime = None\<close> is a file whose \<open>stat\<close> raises (a dangling
  link, a file removed after it was listed). A directory lists its entries in
  \<open>os.scandir\<close> order; \<open>Unreadable\<close> is a directory that the process may not
  list.
\<close>

record file_node =
  st_mtime :: "real option"
  et_parse :: parsed

datatype node = File file_node | Dir "(string \<times> node) list" | Unreadable

type_synonym path = "string list"

text \<open>
  A \<open>Path\<close> is modelled by its components together with what it names in the
  snapshot: a node; nothing, while every component before the last names a directory
  that may be searched (\<open>Absent\<close>); or nothing that can be reached, with the error
  the operating system gives for it (\<open>Inaccessible\<close>: NotADirectoryError when a
  component before the last names a regular file, PermissionError when a component may
  not be searched).
\<close>

datatype target = Absent | Inaccessible exn | Present node

fun is_dir :: "node \<Rightarrow> bool" where
  "is_dir (Dir es) = True"
| "is_dir Unreadable = True"
| "is_dir (File f) = False"

fun is_file :: "node \<Rightarrow> bool" where
  "is_file (File f) = True"
| "is_file (Dir es) = False"
| "is_file Unreadable = False"

text \<open>
  \<open>os.scandir\<close>: FileNotFoundError for a path that names nothing,
  NotADirectoryError for a regular file, PermissionError for a directory that may not be
  listed, the error of the path itself when it cannot be reached.
\<close>

fun scandir :: "target \<Rightarrow> exn + (string \<times> node) list" where
  "scandir Absent = Inl FileNotFoundError"
| "scandir (Inaccessible e) = Inl e"
| "scandir (Present (File f)) = Inl NotADirectoryError"
| "scandir (Present Unreadable) = Inl PermissionError"
| "scandir (Present (Dir es)) = Inr es"

text \<open>
  \<open>os.walk(top)\<close>, top-down, links not followed, errors of \<open>scandir\<close> ignored
  (a directory that may not be listed contributes nothing): one triple (directory, names
  of its subdirectories, its other entries) for the directory itself, then the walks of
  the subdirectories in listing order.
\<close>

fun nondirs :: "(string \<times> node) list \<Rightarrow> (string \<times> file_node) list" where
  "nondirs [] = []"
| "nondirs ((name, File f) # es) = (name, f) # nondirs es"
| "nondirs ((name, Dir ds) # es) = nondirs es"
| "nondirs ((name, Unreadable) # es) = nondirs es"

fun dirnames :: "(string \<times> node) list \<Rightarrow> string list" where
  "dirnames [] = []"
| "dirnames ((name, File f) # es) = dirnames es"
| "dirnames ((name, Dir ds) # es) = name # dirnames es"
| "dirnames ((name, Unreadable) # es) = name # dirnames es"

fun os_walk :: "path \<Rightarrow> node \<Rightarrow> (path \<times> string list \<times> (string \<times> file_node) list) list"
  and os_walk_dirs :: "path \<Rightarrow> (string \<times> node) list \<Rightarrow>
        (path \<times> string list \<times> (string \<times> file_node) list) list" where
  "os_walk r (File f) = []"
| "os_walk r Unreadable = []"
| "os_walk r (Dir es) = (r, dirnames es, nondirs es) # os_walk_dirs r es"
| "os_walk_dirs r [] = []"
| "os_walk_dirs r ((name, File f) # es) = os_walk_dirs r es"
| "os_walk_dirs r ((name, Unreadable) # es) =
     os_walk (r @ [name]) Unreadable @ os_walk_dirs r es"
| "os_walk_dirs r ((name, Dir ds) # es) =
     os_walk (r @ [name]) (Dir ds) @ os_walk_dirs r es"

section \<open>defs\_summary.py\<close>

record DefsSummary =
  total_defs :: nat
  type_counts :: "(string \<times> nat) list"
  files_scanned :: nat

subsection \<open>\_strip\_ns\<close>

text \<open>
  On a string: the part after the first \<open>}\<close> when the tag starts with \<open>{\<close> and
  has a \<open>}\<close>, the tag itself otherwise. On a callable, \<open>not tag\<close> is false and
  \<open>tag.startswith\<close> raises AttributeError.
\<close>

fun strip_ns :: "tag \<Rightarrow> exn + string" where
  "strip_ns Callable = Inl AttributeError"
| "strip_ns (Str []) = Inr []"
| "strip_ns (Str (c # cs)) =
     (if c = CHR ''{'' then
        (case find_char (CHR ''}'') (c # cs) of
           Some e \<Rightarrow> Inr (drop (e + 1) (c # cs))
         | None \<Rightarrow> Inr (c # cs))
      else Inr (c # cs))"

subsection \<open>\_find\_case\_insensitive\_dir and \_about\_xml\_path\<close>

text \<open>The first entry that passes the test; \<open>entry.path\<close> is the parent joined with the name.\<close>

fun first_entry :: "(string \<Rightarrow> node \<Rightarrow> bool) \<Rightarrow> path \<Rightarrow> (string \<times> node) list \<Rightarrow>
    (path \<times> node) option" where
  "first_entry P parent [] = None"
| "first_entry P parent ((name, nd) # es) =
     (if P name nd then Some (parent @ [name], nd) else first_entry P parent es)"

text \<open>Only FileNotFoundError is caught; any other error of \<open>scandir\<close> propagates.\<close>

definition find_case_insensitive_dir ::
    "path \<Rightarrow> target \<Rightarrow> string \<Rightarrow> exn + (path \<times> node) option" where
  "find_case_insensitive_dir parent nd expected_name =
     (case scandir nd of
        Inl FileNotFoundError \<Rightarrow> Inr None
      | Inl e \<Rightarrow> Inl e
      | Inr es \<Rightarrow>
          Inr (first_entry (\<lambda>name n. is_dir n \<and> lower name = lower expected_name) parent es))"

definition about_xml_path :: "path \<Rightarrow> target \<Rightarrow> exn + (path \<times> node) option" where
  "about_xml_path mod_root nd =
     (case find_case_insensitive_dir mod_root nd ''About'' of
        Inl e \<Rightarrow> Inl e
      | Inr None \<Rightarrow> Inr None
      | Inr (Some (about_dir, about_nd)) \<Rightarrow>
          (case scandir (Present about_nd) of
             Inl FileNotFoundError \<Rightarrow> Inr None
           | Inl e \<Rightarrow> Inl e
           | Inr es \<Rightarrow>
               Inr (first_entry (\<lambda>name n. is_file n \<and> lower name = ''about.xml'') about_dir es)))"

subsection \<open>\_parse\_supported\_versions\<close>

text \<open>The inner loop over the children of the \<open>supportedVersions\<close> element.\<close>

fun collect_li :: "xml list \<Rightarrow> string list \<Rightarrow> exn + string list" where
  "collect_li [] versions = Inr versions"
| "collect_li (child # rest) versions =
     (case strip_ns (tag child) of
        Inl e \<Rightarrow> Inl e
      | Inr t \<Rightarrow>
          if lower t = ''li'' then
            (let txt = strip (case elem_text child of None \<Rightarrow> [] | Some s \<Rightarrow> s)
             in collect_li rest (if txt \<noteq> [] then versions @ [txt] else versions))
          else collect_li rest versions)"

text \<open>The outer loop over \<open>root.iter()\<close>, left at the first \<open>supportedVersions\<close>.\<close>

fun find_supported :: "xml list \<Rightarrow> exn + string list" where
  "find_supported [] = Inr []"
| "find_supported (elem # rest) =
     (case strip_ns (tag elem) of
        Inl e \<Rightarrow> Inl e
      | Inr t \<Rightarrow>
          if lower t = ''supportedversions'' then collect_li (children elem) []
          else find_supported rest)"

text \<open>
  The result is paired with the log of the \<open>ET.parse\<close> calls made (the paths
  parsed). Everything raised inside the \<open>try\<close> gives the empty list; the lookup of the
  manifest path is outside it.
\<close>

definition parse_supported_versions ::
    "path \<Rightarrow> target \<Rightarrow> exn + (string list \<times> path list)" where
  "parse_supported_versions mod_root nd =
     (case about_xml_path mod_root nd of
        Inl e \<Rightarrow> Inl e
      | Inr None \<Rightarrow> Inr ([], [])
      | Inr (Some (p, Dir es)) \<Rightarrow> Inr ([], [p])
      | Inr (Some (p, Unreadable)) \<Rightarrow> Inr ([], [p])
      | Inr (Some (p, File f)) \<Rightarrow>
          (case et_parse f of
             ParseError \<Rightarrow> Inr ([], [p])
           | Document rt \<Rightarrow>
               (case find_supported (iter rt) of
                  Inl e \<Rightarrow> Inr ([], [p])
                | Inr versions \<Rightarrow> Inr (versions, [p]))))"

subsection \<open>\_normalize\_version\_string\<close>

text \<open>
  \<open>int\<close> of a string of decimal digits. Python refuses a string of more than 4300
  digits with ValueError (\<open>sys.get_int_max_str_digits\<close>), which the source catches.
\<close>

definition int_of_digits :: "string \<Rightarrow> exn + nat" where
  "int_of_digits ds =
     (if length ds > 4300 then Inl ValueError
      else Inr (foldl (\<lambda>a c. 10 * a + digit_val c) 0 ds))"

text \<open>
  \<open>re.search(r"(\d+)\.(\d+)", version)\<close>: the leftmost position where a maximal run of
  digits is followed by a dot and a digit; the groups are that run and the maximal run
  after the dot. At a position where the run is not followed by a dot and a digit no
  shorter run matches either, so the search moves on by one character.
\<close>

fun re_search :: "string \<Rightarrow> (string \<times> string) option" where
  "re_search [] = None"
| "re_search (c # cs) =
     (if is_digit c then
        (case dropWhile is_digit cs of
           d # rest \<Rightarrow>
             if d = CHR ''.'' \<and> rest \<noteq> [] \<and> is_digit (hd rest)
             then Some (c # takeWhile is_digit cs, takeWhile is_digit rest)
             else re_search cs
         | [] \<Rightarrow> re_search cs)
      else re_search cs)"

definition normalize_version_string :: "string \<Rightarrow> (nat \<times> nat) option" where
  "normalize_version_string version =
     (case re_search version of
        None \<Rightarrow> None
      | Some (g1, g2) \<Rightarrow>
          (case (int_of_digits g1, int_of_digits g2) of
             (Inr major, Inr minor) \<Rightarrow> Some (major, minor)
           | _ \<Rightarrow> None))"

subsection \<open>\_find\_available\_version\_dirs\<close>

text \<open>
  The dictionary from version to directory is an association list with distinct keys:
  \<open>mapping[nv] = ...\<close> is \<open>AList.update\<close>, a lookup is \<open>map_of\<close>.
\<close>

type_synonym version_dirs = "((nat \<times> nat) \<times> (path \<times> node)) list"

fun available_loop :: "path \<Rightarrow> (string \<times> node) list \<Rightarrow> version_dirs \<Rightarrow> version_dirs" where
  "available_loop mod_root [] mapping = mapping"
| "available_loop mod_root ((name, nd) # es) mapping =
     (if \<not> is_dir nd then available_loop mod_root es mapping
      else
        (case normalize_version_string name of
           None \<Rightarrow> available_loop mod_root es mapping
         | Some nv \<Rightarrow>
             available_loop mod_root es (AList.update nv (mod_root @ [name], nd) mapping)))"

definition find_available_version_dirs :: "path \<Rightarrow> target \<Rightarrow> exn + version_dirs" where
  "find_available_version_dirs mod_root nd =
     (case scandir nd of
        Inl FileNotFoundError \<Rightarrow> Inr []
      | Inl e \<Rightarrow> Inl e
      | Inr es \<Rightarrow> Inr (available_loop mod_root es []))"

subsection \<open>\_choose\_version\_dir\<close>

text \<open>
  \<open>max\<close> of a list of pairs of integers is by Python's tuple comparison, which is the
  lexicographic order of the pairs; it raises ValueError on the empty list.
\<close>

fun py_max :: "'a::linorder list \<Rightarrow> exn + 'a" where
  "py_max [] = Inl ValueError"
| "py_max (x # xs) = Inr (fold max xs x)"

definition subscript :: "version_dirs \<Rightarrow> nat \<times> nat \<Rightarrow> exn + (path \<times> node)" where
  "subscript available k =
     (case map_of available k of None \<Rightarrow> Inl KeyError | Some d \<Rightarrow> Inr d)"

definition choose_version_dir ::
    "path \<Rightarrow> target \<Rightarrow> exn + ((path \<times> node) option \<times> path list)" where
  "choose_version_dir mod_root nd =
     (case parse_supported_versions mod_root nd of
        Inl e \<Rightarrow> Inl e
      | Inr (supported, parses) \<Rightarrow>
     (case find_available_version_dirs mod_root nd of
        Inl e \<Rightarrow> Inl e
      | Inr available \<Rightarrow>
          (let supported_norm = List.map_filter normalize_version_string supported;
               candidates = filter (\<lambda>nv. map_of available nv \<noteq> None) supported_norm
           in if candidates \<noteq> [] then
                (case py_max candidates of
                   Inl e \<Rightarrow> Inl e
                 | Inr chosen \<Rightarrow>
                     (case subscript available chosen of
                        Inl e \<Rightarrow> Inl e
                      | Inr d \<Rightarrow> Inr (Some d, parses)))
              else if available \<noteq> [] then
                (case py_max (map fst available) of
                   Inl e \<Rightarrow> Inl e
                 | Inr chosen \<Rightarrow>
                     (case subscript available chosen of
                        Inl e \<Rightarrow> Inl e
                      | Inr d \<Rightarrow> Inr (Some d, parses)))
              else Inr (None, parses))))"

subsection \<open>\_iter\_defs\_xml\_files\<close>

text \<open>
  The generator is modelled by the list of what it yields, each path with the file it
  names, together with the log of the \<open>ET.parse\<close> calls it makes; an exception raised
  while it runs reaches whoever consumes it. The log says which files are parsed and how
  often, not when: the generator parses the manifest after it has yielded the root-level
  files, and the logs below list the manifest first.
\<close>

definition xml_files :: "(path \<times> string list \<times> (string \<times> file_node) list) list \<Rightarrow>
    (path \<times> file_node) list" where
  "xml_files walk =
     concat (map (\<lambda>(r, dirs, files).
       map (\<lambda>(name, f). (r @ [name], f))
         (filter (\<lambda>(name, f). endswith (lower name) ''.xml'') files)) walk)"

definition walk_defs :: "(path \<times> node) option \<Rightarrow> (path \<times> file_node) list" where
  "walk_defs d = (case d of None \<Rightarrow> [] | Some (p, nd) \<Rightarrow> xml_files (os_walk p nd))"

definition iter_defs_xml_files ::
    "path \<Rightarrow> target \<Rightarrow> exn + ((path \<times> file_node) list \<times> path list)" where
  "iter_defs_xml_files mod_path nd =
     (case find_case_insensitive_dir mod_path nd ''Defs'' of
        Inl e \<Rightarrow> Inl e
      | Inr root_defs \<Rightarrow>
     (case choose_version_dir mod_path nd of
        Inl e \<Rightarrow> Inl e
      | Inr (None, parses) \<Rightarrow> Inr (walk_defs root_defs, parses)
      | Inr (Some (version_dir, version_nd), parses) \<Rightarrow>
          (case find_case_insensitive_dir version_dir (Present version_nd) ''Defs'' of
             Inl e \<Rightarrow> Inl e
           | Inr version_defs \<Rightarrow>
               Inr (walk_defs root_defs @ walk_defs version_defs, parses))))"

subsection \<open>\_compute\_signature\<close>

type_synonym signature = "nat \<times> real"

fun latest_mtime_loop :: "(path \<times> file_node) list \<Rightarrow> real \<Rightarrow> real" where
  "latest_mtime_loop [] latest_mtime = latest_mtime"
| "latest_mtime_loop ((p, f) # files) latest_mtime =
     (case st_mtime f of
        None \<Rightarrow> latest_mtime_loop files latest_mtime
      | Some mtime \<Rightarrow>
          latest_mtime_loop files (if mtime > latest_mtime then mtime else latest_mtime))"

definition compute_signature :: "path \<Rightarrow> target \<Rightarrow> exn + (signature \<times> path list)" where
  "compute_signature mod_path nd =
     (case iter_defs_xml_files mod_path nd of
        Inl e \<Rightarrow> Inl e
      | Inr (files, parses) \<Rightarrow>
          if files = [] then Inr ((0, 0), parses)
          else Inr ((length files, latest_mtime_loop files 0), parses))"

subsection \<open>\_scan\_defs\<close>

text \<open>
  The \<open>Counter\<close> is an association list with distinct keys in insertion order;
  a missing key reads as 0.
\<close>

type_synonym counter = "(string \<times> nat) list"

definition counter_get :: "counter \<Rightarrow> string \<Rightarrow> nat" where
  "counter_get c k = (case map_of c k of None \<Rightarrow> 0 | Some v \<Rightarrow> v)"

definition counter_incr :: "string \<Rightarrow> counter \<Rightarrow> counter" where
  "counter_incr k c = AList.update k (counter_get c k + 1) c"

text \<open>
  The loop over the children of the root. An exception leaves the loop; the counter is
  mutated in place, so the increments made before it stay.
\<close>

fun count_children :: "xml list \<Rightarrow> counter \<Rightarrow> counter \<times> exn option" where
  "count_children [] type_counter = (type_counter, None)"
| "count_children (child # rest) type_counter =
     (case strip_ns (tag child) of
        Inl e \<Rightarrow> (type_counter, Some e)
      | Inr child_tag \<Rightarrow>
          count_children rest
            (if child_tag \<noteq> [] then counter_incr child_tag type_counter else type_counter))"

text \<open>One iteration of the loop over the files: the body of the \<open>try\<close> and its handler.\<close>

definition scan_file :: "file_node \<Rightarrow> counter \<times> nat \<Rightarrow> counter \<times> nat" where
  "scan_file f st =
     (case st of (type_counter, scanned) \<Rightarrow>
       (case et_parse f of
          ParseError \<Rightarrow> (type_counter, scanned)
        | Document rt \<Rightarrow>
            (case strip_ns (tag rt) of
               Inl e \<Rightarrow> (type_counter, scanned)
             | Inr tag_no_ns \<Rightarrow>
                 if lower tag_no_ns \<noteq> ''defs'' then (type_counter, scanned)
                 else
                   (case count_children (children rt) type_counter of
                      (type_counter', Some e) \<Rightarrow> (type_counter', scanned)
                    | (type_counter', None) \<Rightarrow> (type_counter', scanned + 1)))))"

fun scan_loop :: "(path \<times> file_node) list \<Rightarrow> counter \<times> nat \<Rightarrow> counter \<times> nat" where
  "scan_loop [] st = st"
| "scan_loop ((p, f) # files) st = scan_loop files (scan_file f st)"

definition summary_of :: "counter \<times> nat \<Rightarrow> DefsSummary" where
  "summary_of st =
     \<lparr>total_defs = sum_list (map snd (fst st)), type_counts = fst st,
      files_scanned = snd st\<rparr>"

definition scan_defs :: "path \<Rightarrow> target \<Rightarrow> exn + (DefsSummary \<times> path list)" where
  "scan_defs mod_path nd =
     (case iter_defs_xml_files mod_path nd of
        Inl e \<Rightarrow> Inl e
      | Inr (files, parses) \<Rightarrow>
          Inr (summary_of (scan_loop files ([], 0)), parses @ map fst files))"

subsection \<open>get and get\_defs\_summary\<close>

text \<open>
  The cache is a dictionary from \<open>str(path.resolve())\<close> to (signature, summary).
  \<open>resolve\<close> depends on the working directory and on links, so it is a parameter.
  The call returns the summary, the cache after the call and the log of the
  \<open>ET.parse\<close> calls it made; when it raises, the cache has not been written.
\<close>

type_synonym cache = "string \<rightharpoonup> (signature \<times> DefsSummary)"

definition get :: "(path \<Rightarrow> string) \<Rightarrow> cache \<Rightarrow> path \<Rightarrow> target \<Rightarrow>
    exn + (DefsSummary \<times> cache \<times> path list)" where
  "get resolve cache mod_path nd =
     (let path_key = resolve mod_path in
      case compute_signature mod_path nd of
        Inl e \<Rightarrow> Inl e
      | Inr (signature, parses) \<Rightarrow>
          (case (case cache path_key of
                   None \<Rightarrow> None
                 | Some cached \<Rightarrow> if fst cached = signature then Some (snd cached) else None) of
             Some summary \<Rightarrow> Inr (summary, cache, parses)
           | None \<Rightarrow>
               (case scan_defs mod_path nd of
                  Inl e \<Rightarrow> Inl e
                | Inr (summary, parses') \<Rightarrow>
                    Inr (summary, cache(path_key \<mapsto> (signature, summary)), parses @ parses'))))"

definition get_defs_summary :: "(path \<Rightarrow> string) \<Rightarrow> cache \<Rightarrow> path \<Rightarrow> target \<Rightarrow>
    exn + (DefsSummary \<times> cache \<times> path list)" where
  "get_defs_summary resolve cache mod_path nd = get resolve cache mod_path nd"

text \<open>
  The module-level cache starts empty and is written by \<open>get\<close> only: the caches the
  program can hold are those reached from the empty one by calls that return, each on
  its own snapshot of the file system.
\<close>

inductive reachable :: "cache \<Rightarrow> bool" where
  initial: "reachable Map.empty"
| call: "reachable cache \<Longrightarrow>
         get_defs_summary resolve cache mod_path nd = Inr (summary, cache', parses) \<Longrightarrow>
         reachable cache'"


section \<open>startup\_impact\_metrics.py\<close>

text \<open>
  The module state is the two globals. The metrics file is an input of each call:
  \<open>None\<close> when the candidate path does not exist, otherwise what
  \<open>xml.etree.ElementTree.parse\<close> gives for it. Python's \<open>int\<close> on an attribute
  value is a parameter (\<open>None\<close> for ValueError). The call returns the mapping, the
  state after the call and the number of \<open>ET.parse\<close> calls it made.
\<close>

record metrics_state =
  m_cache :: "(string \<times> int) list option"
  m_max_total_ms :: "int option"

definition find_tag :: "string \<Rightarrow> xml \<Rightarrow> xml option" where
  "find_tag name e = List.find (\<lambda>c. tag c = Str name) (children e)"

definition findall :: "string \<Rightarrow> xml \<Rightarrow> xml list" where
  "findall name e = filter (\<lambda>c. tag c = Str name) (children e)"

definition attr_get :: "xml \<Rightarrow> string \<Rightarrow> string option" where
  "attr_get e k = map_of (attrib e) k"

fun mods_loop :: "(string \<Rightarrow> int option) \<Rightarrow> xml list \<Rightarrow> (string \<times> int) list \<Rightarrow>
    (string \<times> int) list" where
  "mods_loop py_int [] metrics = metrics"
| "mods_loop py_int (mod_el # rest) metrics =
     (case (attr_get mod_el ''name'', attr_get mod_el ''totalMs'') of
        (Some name, Some total_ms_str) \<Rightarrow>
          if name = [] \<or> total_ms_str = [] then mods_loop py_int rest metrics
          else
            (case py_int total_ms_str of
               None \<Rightarrow> mods_loop py_int rest metrics
             | Some total_ms \<Rightarrow>
                 if total_ms \<le> 0 then mods_loop py_int rest metrics
                 else mods_loop py_int rest (AList.update (lower name) total_ms metrics))
      | _ \<Rightarrow> mods_loop py_int rest metrics)"

definition max_values :: "(string \<times> int) list \<Rightarrow> int" where
  "max_values metrics = (case map snd metrics of [] \<Rightarrow> 0 | v # vs \<Rightarrow> fold max vs v)"

definition get_total_ms_by_mod_name ::
    "(string \<Rightarrow> int option) \<Rightarrow> parsed option \<Rightarrow> metrics_state \<Rightarrow>
     (string \<times> int) list \<times> metrics_state \<times> nat" where
  "get_total_ms_by_mod_name py_int metrics_file st =
     (case m_cache st of
        Some cached \<Rightarrow> (cached, st, 0)
      | None \<Rightarrow>
          (case metrics_file of
             None \<Rightarrow> ([], st\<lparr>m_cache := Some []\<rparr>, 0)
           | Some ParseError \<Rightarrow>
               ([], st\<lparr>m_cache := Some [], m_max_total_ms := Some 0\<rparr>, 1)
           | Some (Document rt) \<Rightarrow>
               (case find_tag ''Mods'' rt of
                  None \<Rightarrow> ([], st\<lparr>m_cache := Some []\<rparr>, 1)
                | Some mods \<Rightarrow>
                    (let metrics = mods_loop py_int (findall ''Mod'' mods) []
                     in (metrics,
                         st\<lparr>m_cache := Some metrics,
                            m_max_total_ms := Some (max_values metrics)\<rparr>, 1)))))"

text \<open>A sequence of calls, each with the metrics file as it is at that moment.\<close>

fun subsequent_calls :: "(string \<Rightarrow> int option) \<Rightarrow> parsed option list \<Rightarrow> metrics_state \<Rightarrow>
    ((string \<times> int) list \<times> nat) list" where
  "subsequent_calls py_int [] st = []"
| "subsequent_calls py_int (metrics_file # later) st =
     (case get_total_ms_by_mod_name py_int metrics_file st of
        (metrics, st', n) \<Rightarrow> (metrics, n) # subsequent_calls py_int later st')"

section \<open>Notions used in the statements\<close>

text \<open>
  What one file adds to a scan, read off the tree that \<open>ET.parse\<close> gives for it:
  whether it is a definitions container (root tag \<open>defs\<close> after stripping the
  namespace and lower-casing), the child tags that get counted (those before the first
  child whose tag is not a string), and whether the file counts as scanned.
\<close>

fun counted_children :: "xml list \<Rightarrow> string list" where
  "counted_children [] = []"
| "counted_children (child # rest) =
     (case strip_ns (tag child) of
        Inl e \<Rightarrow> []
      | Inr t \<Rightarrow> (if t \<noteq> [] then [t] else []) @ counted_children rest)"

definition is_defs_container :: "file_node \<Rightarrow> bool" where
  "is_defs_container f =
     (case et_parse f of
        ParseError \<Rightarrow> False
      | Document rt \<Rightarrow>
          (case strip_ns (tag rt) of Inl e \<Rightarrow> False | Inr t \<Rightarrow> lower t = ''defs''))"

definition counted_tags :: "file_node \<Rightarrow> string list" where
  "counted_tags f =
     (if is_defs_container f then counted_children (children (getroot (et_parse f))) else [])"

definition counts_as_scanned :: "file_node \<Rightarrow> bool" where
  "counts_as_scanned f =
     (is_defs_container f \<and> (\<forall>c \<in> set (children (getroot (et_parse f))). tag c \<noteq> Callable))"

text \<open>
  The directories whose trees are enumerated: the root-level \<open>Defs\<close> directory, the
  version directory chosen by the resolver, and the \<open>Defs\<close> directory under it.
\<close>

definition root_defs_dir :: "path \<Rightarrow> target \<Rightarrow> (path \<times> node) option" where
  "root_defs_dir mod_path nd =
     (case find_case_insensitive_dir mod_path nd ''Defs'' of Inl e \<Rightarrow> None | Inr d \<Rightarrow> d)"

definition resolved_version_dir :: "path \<Rightarrow> target \<Rightarrow> (path \<times> node) option" where
  "resolved_version_dir mod_path nd =
     (case choose_version_dir mod_path nd of Inl e \<Rightarrow> None | Inr (d, parses) \<Rightarrow> d)"

definition version_defs_dir :: "path \<Rightarrow> target \<Rightarrow> (path \<times> node) option" where
  "version_defs_dir mod_path nd =
     (case resolved_version_dir mod_path nd of
        None \<Rightarrow> None
      | Some (version_dir, version_nd) \<Rightarrow> root_defs_dir version_dir (Present version_nd))"

text \<open>What every cache entry is: the scan of some list of files, stored with a signature
  whose first component is the length of that list.\<close>

definition entry_ok :: "signature \<times> DefsSummary \<Rightarrow> bool" where
  "entry_ok entry =
     (\<exists>files. snd entry = summary_of (scan_loop files ([], 0)) \<and> fst (fst entry) = length files)"

section \<open>Example inputs\<close>

subsection \<open>A metrics file and a reading of its numbers\<close>

definition ex_py_int :: "string \<Rightarrow> int option" where
  "ex_py_int s = (if s = ''12'' then Some 12 else if s = ''-3'' then Some (-3) else None)"

definition ex_metrics_xml :: parsed where
  "ex_metrics_xml = Document (Element (Str ''Metrics'') [] None
     [Element (Str ''Mods'') [] None
        [Element (Str ''Mod'') [(''name'', ''Foo''), (''totalMs'', ''12'')] None [],
         Element (Str ''Mod'') [(''name'', ''Bar''), (''totalMs'', ''-3'')] None [],
         Element (Str ''Mod'') [(''name'', ''Baz'')] None []]])"

definition ex_metrics_state0 :: metrics_state where
  "ex_metrics_state0 = \<lparr>m_cache = None, m_max_total_ms = None\<rparr>"

subsection \<open>Mods\<close>

definition elem :: "string \<Rightarrow> xml list \<Rightarrow> xml" where
  "elem name cs = Element (Str name) [] None cs"

definition li :: "string \<Rightarrow> xml" where
  "li s = Element (Str ''li'') [] (Some s) []"

definition comment :: "string \<Rightarrow> xml" where
  "comment s = Element Callable [] (Some s) []"

definition xml_file :: "real \<Rightarrow> parsed \<Rightarrow> node" where
  "xml_file t d = File \<lparr>st_mtime = Some t, et_parse = d\<rparr>"

definition ex_path :: path where
  "ex_path = [''mods'', ''m'']"

definition ex_defs3 :: parsed where
  "ex_defs3 = Document (elem ''Defs''
     [elem ''ThingDef'' [], elem ''{http://example.com}ThingDef'' [],
      elem ''RecipeDef'' [elem ''label'' []]])"

definition ex_mod_malformed :: node where
  "ex_mod_malformed =
     Dir [(''Defs'', Dir [(''good.xml'', xml_file 5 ex_defs3), (''bad.xml'', xml_file 7 ParseError)])]"

definition ex_defs_comment :: parsed where
  "ex_defs_comment = Document (elem ''Defs''
     [elem ''ThingDef'' [], comment '' weapons '', elem ''ThingDef'' []])"

definition ex_mod_comment :: node where
  "ex_mod_comment = Dir [(''Defs'', Dir [(''things.xml'', xml_file 5 ex_defs_comment)])]"

definition ex_resolve :: "path \<Rightarrow> string" where
  "ex_resolve p = concat (map (\<lambda>name. CHR ''/'' # name) p)"

definition ex_defs1 :: parsed where
  "ex_defs1 = Document (elem ''Defs'' [elem ''ThingDef'' []])"

definition ex_about :: node where
  "ex_about = Dir [(''About.xml'', xml_file 1 (Document (elem ''ModMetaData''
     [elem ''name'' [], elem ''supportedVersions'' [li ''1.4'']])))]"

definition ex_version_dir :: "string \<Rightarrow> real \<Rightarrow> node" where
  "ex_version_dir name t = Dir [(''Defs'', Dir [(name, xml_file t ex_defs1)])]"

definition ex_mod_versions :: node where
  "ex_mod_versions =
     Dir [(''About'', ex_about),
          (''Defs'', Dir [(''core.xml'', xml_file 2 ex_defs3)]),
          (''1.3'', ex_version_dir ''a.xml'' 3),
          (''1.4'', ex_version_dir ''b.xml'' 4),
          (''1.5'', ex_version_dir ''c.xml'' 6)]"

definition ex_summary :: DefsSummary where
  "ex_summary = \<lparr>total_defs = 4, type_counts = [(''ThingDef'', 3), (''RecipeDef'', 1)],
     files_scanned = 2\<rparr>"

text \<open>A mod with one definition file, and the same mod with a second file that cannot
  be stat'd.\<close>

definition ex_mod_statable :: node where
  "ex_mod_statable = Dir [(''Defs'', Dir [(''a.xml'', xml_file 5 ex_defs1)])]"

definition ex_mod_unstatable :: node where
  "ex_mod_unstatable =
     Dir [(''Defs'', Dir [(''a.xml'', xml_file 5 ex_defs1),
                          (''gone.xml'', File \<lparr>st_mtime = None, et_parse = ParseError\<rparr>)])]"

text \<open>The modification times of the files whose \<open>stat\<close> succeeds.\<close>

definition statable_mtimes :: "(path \<times> file_node) list \<Rightarrow> real list" where
  "statable_mtimes files = List.map_filter (\<lambda>(p, f). st_mtime f) files"

text \<open>The mod with the three version directories, its manifest starting with a comment.\<close>

definition ex_about_commented :: node where
  "ex_about_commented = Dir [(''About.xml'', xml_file 1 (Document (elem ''ModMetaData''
     [comment '' metadata '', elem ''name'' [], elem ''supportedVersions'' [li ''1.4'']])))]"

definition ex_mod_commented :: node where
  "ex_mod_commented =
     Dir [(''About'', ex_about_commented),
          (''1.3'', ex_version_dir ''a.xml'' 3),
          (''1.4'', ex_version_dir ''b.xml'' 4),
          (''1.5'', ex_version_dir ''c.xml'' 6)]"

text \<open>Version directories 1.2, 1.5 and 1.3 and no manifest.\<close>

definition ex_mod_fallback :: node where
  "ex_mod_fallback =
     Dir [(''1.2'', ex_version_dir ''a.xml'' 3),
          (''1.5'', ex_version_dir ''b.xml'' 4),
          (''1.3'', ex_version_dir ''c.xml'' 6)]"


text \<open>
  The files of a tree, each with its path relative to the root of the tree; the files
  enumerated for a \<open>Defs\<close> directory according to the specification; and the
  directories directly under a parent whose name is the expected one up to case.
\<close>

inductive file_under :: "node \<Rightarrow> path \<Rightarrow> file_node \<Rightarrow> bool" where
  here: "(name, File f) \<in> set es \<Longrightarrow> file_under (Dir es) [name] f"
| below: "(name, Dir ds) \<in> set es \<Longrightarrow> file_under (Dir ds) q f \<Longrightarrow>
          file_under (Dir es) (name # q) f"

definition is_xml_name :: "string \<Rightarrow> bool" where
  "is_xml_name name = endswith (lower name) ''.xml''"

definition xml_files_under :: "(path \<times> node) option \<Rightarrow> (path \<times> file_node) set" where
  "xml_files_under d =
     (case d of
        None \<Rightarrow> {}
      | Some (p, nd) \<Rightarrow> {(p @ q, f) | q f. file_under nd q f \<and> is_xml_name (last q)})"

definition dirs_named :: "string \<Rightarrow> path \<Rightarrow> target \<Rightarrow> (path \<times> node) set" where
  "dirs_named expected parent nd =
     {(parent @ [name], d) | name d es.
        nd = Present (Dir es) \<and> (name, d) \<in> set es \<and> is_dir d \<and>
        lower name = lower expected}"

text \<open>
  The \<open>About\<close> directory of a mod, and the condition under which every directory scan
  of the enumerator succeeds or fails with FileNotFoundError, which is the one error the
  source catches: the scan of the mod path, of the \<open>About\<close> directory and of the
  resolved version directory.
\<close>

definition about_dir :: "path \<Rightarrow> target \<Rightarrow> (path \<times> node) option" where
  "about_dir mod_path nd =
     (case find_case_insensitive_dir mod_path nd ''About'' of Inl e \<Rightarrow> None | Inr d \<Rightarrow> d)"

definition scans_succeed :: "path \<Rightarrow> target \<Rightarrow> bool" where
  "scans_succeed mod_path nd =
     ((case scandir nd of Inl e \<Rightarrow> e = FileNotFoundError | Inr es \<Rightarrow> True) \<and>
      (case about_dir mod_path nd of Some (q, Unreadable) \<Rightarrow> False | _ \<Rightarrow> True) \<and>
      (case resolved_version_dir mod_path nd of Some (q, Unreadable) \<Rightarrow> False | _ \<Rightarrow> True))"

text \<open>
  A mod with an \<open>.xml\<close> file outside \<open>Defs\<close>, two directories named
  \<open>Defs\<close> up to case, a nested directory, a directory that may not be listed, a
  file that is not XML, and two version directories.
\<close>

definition ex_mod_nested :: node where
  "ex_mod_nested =
     Dir [(''notes.xml'', xml_file 1 ex_defs1),
          (''DEFS'', Dir [(''a.Xml'', xml_file 2 ex_defs1),
                          (''readme.txt'', xml_file 9 ParseError),
                          (''locked'', Unreadable),
                          (''sub'', Dir [(''b.xml'', xml_file 3 ex_defs3)])]),
          (''defs'', Dir [(''shadowed.xml'', xml_file 4 ex_defs1)]),
          (''1.4'', ex_version_dir ''old.xml'' 5),
          (''v1.5'', ex_version_dir ''c.XML'' 6)]"

text \<open>The parse of the manifest: the path of \<open>About/About.xml\<close> when the mod has one.\<close>

definition manifest_parses :: "path \<Rightarrow> target \<Rightarrow> path list" where
  "manifest_parses mod_path nd =
     (case about_xml_path mod_path nd of Inr (Some (p, n)) \<Rightarrow> [p] | _ \<Rightarrow> [])"

section \<open>Properties\<close>

subsection \<open>The scan as a fold over the counted tags\<close>

lemma counter_get_incr:
  "counter_get (counter_incr k c) k' =
     (if k' = k then counter_get c k + 1 else counter_get c k')"
  by (simp add: counter_get_def counter_incr_def update_conv')

lemma sum_update:
  "sum_list (map snd (AList.update k v c)) + counter_get c k = sum_list (map snd c) + v"
  by (induction c) (auto simp: counter_get_def)

lemma sum_counter_incr:
  "sum_list (map snd (counter_incr k c)) = sum_list (map snd c) + 1"
  using sum_update [of k "counter_get c k + 1" c] by (simp add: counter_incr_def)

lemma distinct_counter_incr:
  "distinct (map fst c) \<Longrightarrow> distinct (map fst (counter_incr k c))"
  by (simp add: counter_incr_def distinct_update)

lemma strip_ns_Inl: "strip_ns t = Inl e \<longleftrightarrow> t = Callable \<and> e = AttributeError"
  by (cases t rule: strip_ns.cases) (auto split: option.splits)

lemma count_children_eq:
  "count_children cs c =
     (fold counter_incr (counted_children cs) c,
      if \<forall>x \<in> set cs. tag x \<noteq> Callable then None else Some AttributeError)"
proof (induction cs arbitrary: c)
  case Nil
  show ?case by simp
next
  case (Cons child rest)
  show ?case
  proof (cases "strip_ns (tag child)")
    case (Inl e)
    then show ?thesis by (simp add: strip_ns_Inl)
  next
    case (Inr t)
    then have "tag child \<noteq> Callable" by auto
    with Inr Cons show ?thesis by simp
  qed
qed

lemma scan_file_eq:
  "scan_file f (c, n) =
     (fold counter_incr (counted_tags f) c, if counts_as_scanned f then n + 1 else n)"
  by (auto simp: scan_file_def counted_tags_def counts_as_scanned_def is_defs_container_def
        count_children_eq split: parsed.splits sum.splits)

lemma scan_loop_eq:
  "scan_loop files (c, n) =
     (fold counter_incr (concat (map (counted_tags \<circ> snd) files)) c,
      n + length (filter (counts_as_scanned \<circ> snd) files))"
  by (induction files arbitrary: c n) (auto simp: scan_file_eq)

lemma iter_defs_decomp:
  assumes "iter_defs_xml_files mod_path nd = Inr (files, parses)"
  shows "files = walk_defs (root_defs_dir mod_path nd) @ walk_defs (version_defs_dir mod_path nd)"
  using assms
  by (auto simp: iter_defs_xml_files_def root_defs_dir_def version_defs_dir_def
        resolved_version_dir_def walk_defs_def split: sum.splits option.splits prod.splits)

lemma compute_signature_Inr:
  assumes "compute_signature mod_path nd = Inr (sig, parses)"
  shows "\<exists>files. iter_defs_xml_files mod_path nd = Inr (files, parses) \<and> fst sig = length files"
  using assms by (auto simp: compute_signature_def split: sum.splits if_splits)

lemma scan_defs_Inr:
  assumes "iter_defs_xml_files mod_path nd = Inr (files, parses)"
  shows "scan_defs mod_path nd =
           Inr (summary_of (scan_loop files ([], 0)), parses @ map fst files)"
  using assms by (simp add: scan_defs_def)

lemma get_cases:
  assumes "get resolve cache mod_path nd = Inr (s, cache', plog)"
  obtains (hit) sig where "cache (resolve mod_path) = Some (sig, s)" "cache' = cache"
      "compute_signature mod_path nd = Inr (sig, plog)"
  | (miss) sig files parses where "compute_signature mod_path nd = Inr (sig, parses)"
      "iter_defs_xml_files mod_path nd = Inr (files, parses)"
      "fst sig = length files"
      "s = summary_of (scan_loop files ([], 0))"
      "cache' = cache(resolve mod_path \<mapsto> (sig, s))"
      "plog = parses @ parses @ map fst files"
proof -
  from assms obtain sig parses where cs: "compute_signature mod_path nd = Inr (sig, parses)"
    by (auto simp: get_def Let_def split: sum.splits)
  then obtain files where it: "iter_defs_xml_files mod_path nd = Inr (files, parses)"
      and len: "fst sig = length files"
    using compute_signature_Inr by blast
  show thesis
  proof (cases "\<exists>s'. cache (resolve mod_path) = Some (sig, s')")
    case True
    then obtain s' where c: "cache (resolve mod_path) = Some (sig, s')" by blast
    with assms cs have "s' = s" "cache' = cache" "plog = parses"
      by (auto simp: get_def Let_def)
    with c cs show thesis by (intro hit) auto
  next
    case False
    then have "(case cache (resolve mod_path) of None \<Rightarrow> None
        | Some cached \<Rightarrow> if fst cached = sig then Some (snd cached) else None) = None"
      by (auto split: option.splits)
    with assms cs it have "s = summary_of (scan_loop files ([], 0))"
      "cache' = cache(resolve mod_path \<mapsto> (sig, s))" "plog = parses @ parses @ map fst files"
      by (auto simp: get_def Let_def scan_defs_Inr)
    with cs it len show thesis by (intro miss) auto
  qed
qed

lemma reachable_entry_ok:
  assumes "reachable cache" "cache k = Some entry"
  shows "entry_ok entry"
  using assms
proof (induction arbitrary: k entry rule: reachable.induct)
  case initial
  then show ?case by simp
next
  case (call cache resolve mod_path nd summary cache' parses)
  from call.hyps(2) have "get resolve cache mod_path nd = Inr (summary, cache', parses)"
    by (simp add: get_defs_summary_def)
  then show ?case
  proof (cases rule: get_cases)
    case (hit sig)
    with call show ?thesis by simp
  next
    case (miss sig files ps)
    show ?thesis
    proof (cases "k = resolve mod_path")
      case True
      with miss call.prems have "entry = (sig, summary)" by simp
      with miss show ?thesis by (auto simp: entry_ok_def)
    next
      case False
      with miss call.prems have "cache k = Some entry" by simp
      then show ?thesis by (rule call.IH)
    qed
  qed
qed

lemma get_defs_summary_scanned:
  assumes "reachable cache"
    and "get_defs_summary resolve cache mod_path nd = Inr (s, cache', plog)"
  shows "\<exists>files. s = summary_of (scan_loop files ([], 0))"
proof -
  from assms(2) have "get resolve cache mod_path nd = Inr (s, cache', plog)"
    by (simp add: get_defs_summary_def)
  then show ?thesis
  proof (cases rule: get_cases)
    case (hit sig)
    with reachable_entry_ok [OF assms(1)] have "entry_ok (sig, s)" by blast
    then show ?thesis by (auto simp: entry_ok_def)
  next
    case (miss sig files ps)
    then show ?thesis by blast
  qed
qed

lemmas eval_strings = lower_def lower_char_def endswith_def is_space_def strip_def
  is_digit_def digit_val_def int_of_digits_def normalize_version_string_def

lemmas eval_enumerator = find_case_insensitive_dir_def about_xml_path_def
  parse_supported_versions_def find_available_version_dirs_def choose_version_dir_def
  subscript_def xml_files_def walk_defs_def iter_defs_xml_files_def List.map_filter_def

lemmas eval_scan = counter_get_def counter_incr_def scan_file_def summary_of_def

lemmas eval_examples = elem_def li_def comment_def xml_file_def ex_path_def

subsection \<open>The examples, evaluated\<close>

lemma ex_malformed_files:
  "iter_defs_xml_files ex_path (Present ex_mod_malformed) =
     Inr ([(ex_path @ [''Defs'', ''good.xml''], \<lparr>st_mtime = Some 5, et_parse = ex_defs3\<rparr>),
           (ex_path @ [''Defs'', ''bad.xml''], \<lparr>st_mtime = Some 7, et_parse = ParseError\<rparr>)], [])"
  by (simp add: eval_strings eval_enumerator eval_examples ex_mod_malformed_def)

lemma ex_malformed_scan:
  "scan_defs ex_path (Present ex_mod_malformed) =
     Inr (\<lparr>total_defs = 3, type_counts = [(''ThingDef'', 2), (''RecipeDef'', 1)],
           files_scanned = 1\<rparr>,
          [ex_path @ [''Defs'', ''good.xml''], ex_path @ [''Defs'', ''bad.xml'']])"
  by (simp add: scan_defs_Inr [OF ex_malformed_files] eval_scan ex_defs3_def elem_def
        eval_strings)

lemma ex_comment_scan:
  "scan_defs ex_path (Present ex_mod_comment) =
     Inr (\<lparr>total_defs = 1, type_counts = [(''ThingDef'', 1)], files_scanned = 0\<rparr>,
          [ex_path @ [''Defs'', ''things.xml'']])"
  by (simp add: scan_defs_def eval_strings eval_enumerator eval_examples eval_scan
        ex_mod_comment_def ex_defs_comment_def)

lemma ex_versions_files:
  "iter_defs_xml_files ex_path (Present ex_mod_versions) =
     Inr ([(ex_path @ [''Defs'', ''core.xml''], \<lparr>st_mtime = Some 2, et_parse = ex_defs3\<rparr>),
           (ex_path @ [''1.4'', ''Defs'', ''b.xml''], \<lparr>st_mtime = Some 4, et_parse = ex_defs1\<rparr>)],
          [ex_path @ [''About'', ''About.xml'']])"
  by (simp add: eval_strings eval_enumerator eval_examples ex_mod_versions_def ex_about_def
        ex_version_dir_def)

lemma ex_versions_scan:
  "scan_defs ex_path (Present ex_mod_versions) =
     Inr (ex_summary,
          [ex_path @ [''About'', ''About.xml''], ex_path @ [''Defs'', ''core.xml''],
           ex_path @ [''1.4'', ''Defs'', ''b.xml'']])"
  by (simp add: scan_defs_Inr [OF ex_versions_files] eval_scan ex_defs3_def ex_defs1_def
        elem_def eval_strings ex_summary_def)

lemma ex_versions_signature:
  "compute_signature ex_path (Present ex_mod_versions) =
     Inr ((2, 4), [ex_path @ [''About'', ''About.xml'']])"
  by (simp add: compute_signature_def ex_versions_files)

lemma ex_versions_first_get:
  "get_defs_summary ex_resolve Map.empty ex_path (Present ex_mod_versions) =
     Inr (ex_summary, [ex_resolve ex_path \<mapsto> ((2, 4), ex_summary)],
          [ex_path @ [''About'', ''About.xml''], ex_path @ [''About'', ''About.xml''],
           ex_path @ [''Defs'', ''core.xml''], ex_path @ [''1.4'', ''Defs'', ''b.xml'']])"
  by (simp add: get_defs_summary_def get_def ex_versions_signature ex_versions_scan)

lemma ex_versions_second_get:
  "get_defs_summary ex_resolve [ex_resolve ex_path \<mapsto> ((2, 4), ex_summary)] ex_path
       (Present ex_mod_versions) =
     Inr (ex_summary, [ex_resolve ex_path \<mapsto> ((2, 4), ex_summary)],
          [ex_path @ [''About'', ''About.xml'']])"
  by (simp add: get_defs_summary_def get_def ex_versions_signature)

subsection \<open>Scanner and aggregator\<close>

lemma scan_file_ParseError: "et_parse f = ParseError \<Longrightarrow> scan_file f st = st"
  by (cases st) (simp add: scan_file_def)

lemma scan_loop_filter_parseable:
  "scan_loop (filter (\<lambda>(p, f). et_parse f \<noteq> ParseError) files) st = scan_loop files st"
  by (induction files st rule: scan_loop.induct) (auto simp: scan_file_ParseError)

lemma counter_get_Nil: "counter_get [] k = 0"
  by (simp add: counter_get_def)

lemma counter_get_fold:
  "counter_get (fold counter_incr ts c) k = counter_get c k + count_list ts k"
  by (induction ts arbitrary: c) (auto simp: counter_get_incr)

lemma sum_fold:
  "sum_list (map snd (fold counter_incr ts c)) = sum_list (map snd c) + length ts"
  by (induction ts arbitrary: c) (auto simp: sum_counter_incr)

lemma distinct_fold:
  "distinct (map fst c) \<Longrightarrow> distinct (map fst (fold counter_incr ts c))"
  by (induction ts arbitrary: c) (auto simp: distinct_counter_incr)

lemma scanned_total: "total_defs (summary_of (scan_loop files ([], 0))) =
    sum_list (map snd (type_counts (summary_of (scan_loop files ([], 0)))))"
  by (simp add: summary_of_def)

lemma scanned_distinct:
  "distinct (map fst (type_counts (summary_of (scan_loop files ([], 0)))))"
  by (simp add: summary_of_def scan_loop_eq distinct_fold)

lemma scanned_append:
  "total_defs (summary_of (scan_loop (xs @ ys) ([], 0))) =
     total_defs (summary_of (scan_loop xs ([], 0))) + total_defs (summary_of (scan_loop ys ([], 0)))"
  "counter_get (type_counts (summary_of (scan_loop (xs @ ys) ([], 0)))) k =
     counter_get (type_counts (summary_of (scan_loop xs ([], 0)))) k +
     counter_get (type_counts (summary_of (scan_loop ys ([], 0)))) k"
  "files_scanned (summary_of (scan_loop (xs @ ys) ([], 0))) =
     files_scanned (summary_of (scan_loop xs ([], 0))) +
     files_scanned (summary_of (scan_loop ys ([], 0)))"
  by (simp_all add: summary_of_def scan_loop_eq sum_fold counter_get_fold counter_get_Nil)

text \<open>
  C5. In every summary that \<open>get_defs_summary\<close> returns, from any cache the program
  can hold, \<open>total_defs\<close> is the sum of the values of \<open>type_counts\<close> (a mapping:
  its keys are distinct). And the summary of a scan is the sum of the scan of the files
  under the root-level \<open>Defs\<close> directory and the scan of the files under the
  \<open>Defs\<close> directory of the resolved version directory: in \<open>total_defs\<close> and in
  the count of every type.
\<close>

theorem total_defs_is_sum_of_type_counts:
  "(reachable cache \<longrightarrow>
      get_defs_summary resolve cache mod_path nd = Inr (s, cache', plog) \<longrightarrow>
      total_defs s = sum_list (map snd (type_counts s)) \<and> distinct (map fst (type_counts s)))
   \<and> (scan_defs mod_path' nd' = Inr (s', plog') \<longrightarrow>
      (let r = summary_of (scan_loop (walk_defs (root_defs_dir mod_path' nd')) ([], 0));
           v = summary_of (scan_loop (walk_defs (version_defs_dir mod_path' nd')) ([], 0))
       in total_defs s' = total_defs r + total_defs v \<and>
          (\<forall>k. counter_get (type_counts s') k =
                 counter_get (type_counts r) k + counter_get (type_counts v) k)))"
proof (intro conjI impI)
  assume "reachable cache"
    and "get_defs_summary resolve cache mod_path nd = Inr (s, cache', plog)"
  then obtain files where s: "s = summary_of (scan_loop files ([], 0))"
    using get_defs_summary_scanned by blast
  show "total_defs s = sum_list (map snd (type_counts s))"
    unfolding s by (rule scanned_total)
  show "distinct (map fst (type_counts s))"
    unfolding s by (rule scanned_distinct)
next
  assume sd: "scan_defs mod_path' nd' = Inr (s', plog')"
  then obtain files parses where it: "iter_defs_xml_files mod_path' nd' = Inr (files, parses)"
    by (auto simp: scan_defs_def split: sum.splits)
  with sd have "s' = summary_of (scan_loop files ([], 0))"
    by (simp add: scan_defs_Inr)
  also have "files = walk_defs (root_defs_dir mod_path' nd') @ walk_defs (version_defs_dir mod_path' nd')"
    using it by (rule iter_defs_decomp)
  finally show "let r = summary_of (scan_loop (walk_defs (root_defs_dir mod_path' nd')) ([], 0));
           v = summary_of (scan_loop (walk_defs (version_defs_dir mod_path' nd')) ([], 0))
       in total_defs s' = total_defs r + total_defs v \<and>
          (\<forall>k. counter_get (type_counts s') k =
                 counter_get (type_counts r) k + counter_get (type_counts v) k)"
    by (simp add: Let_def scanned_append)
qed

theorem total_defs_is_sum_of_type_counts_witness:
  "reachable Map.empty \<and>
   get_defs_summary ex_resolve Map.empty ex_path (Present ex_mod_versions) =
     Inr (ex_summary, [ex_resolve ex_path \<mapsto> ((2, 4), ex_summary)],
          [ex_path @ [''About'', ''About.xml''], ex_path @ [''About'', ''About.xml''],
           ex_path @ [''Defs'', ''core.xml''], ex_path @ [''1.4'', ''Defs'', ''b.xml'']]) \<and>
   total_defs ex_summary = sum_list (map snd (type_counts ex_summary)) \<and>
   distinct (map fst (type_counts ex_summary)) \<and>
   scan_defs ex_path (Present ex_mod_versions) =
     Inr (ex_summary,
          [ex_path @ [''About'', ''About.xml''], ex_path @ [''Defs'', ''core.xml''],
           ex_path @ [''1.4'', ''Defs'', ''b.xml'']]) \<and>
   (let r = summary_of (scan_loop (walk_defs (root_defs_dir ex_path (Present ex_mod_versions))) ([], 0));
        v = summary_of (scan_loop (walk_defs (version_defs_dir ex_path (Present ex_mod_versions))) ([], 0))
    in total_defs ex_summary = total_defs r + total_defs v \<and>
       (\<forall>k. counter_get (type_counts ex_summary) k =
              counter_get (type_counts r) k + counter_get (type_counts v) k))"
  using total_defs_is_sum_of_type_counts [where cache = Map.empty and resolve = ex_resolve
      and mod_path = ex_path and nd = "Present ex_mod_versions" and s = ex_summary
      and mod_path' = ex_path and nd' = "Present ex_mod_versions" and s' = ex_summary]
    reachable.initial ex_versions_first_get ex_versions_scan
  by blast

lemma counted_children_nonempty: "t \<in> set (counted_children cs) \<Longrightarrow> t \<noteq> []"
  by (induction cs) (auto split: sum.splits if_splits)

lemma counted_tags_nonempty: "t \<in> set (counted_tags f) \<Longrightarrow> t \<noteq> []"
  by (auto simp: counted_tags_def dest: counted_children_nonempty split: if_splits)

lemma set_update_cases:
  "(a, b) \<in> set (AList.update k v c) \<Longrightarrow> (a, b) = (k, v) \<or> (a, b) \<in> set c"
  by (induction c) (auto split: if_splits)

lemma counter_incr_positive:
  assumes "\<forall>(a, b) \<in> set c. a \<noteq> [] \<and> 0 < b" and "k \<noteq> []"
  shows "\<forall>(a, b) \<in> set (counter_incr k c). a \<noteq> [] \<and> 0 < b"
  using assms by (auto simp: counter_incr_def dest!: set_update_cases)

lemma fold_counter_incr_positive:
  assumes "\<forall>(a, b) \<in> set c. a \<noteq> [] \<and> 0 < b" and "\<forall>t \<in> set ts. t \<noteq> []"
  shows "\<forall>(a, b) \<in> set (fold counter_incr ts c). a \<noteq> [] \<and> 0 < b"
  using assms
proof (induction ts arbitrary: c)
  case Nil
  then show ?case by simp
next
  case (Cons t ts)
  from Cons.prems have "\<forall>(a, b) \<in> set (counter_incr t c). a \<noteq> [] \<and> 0 < b"
    by (intro counter_incr_positive) auto
  with Cons show ?case by simp
qed

lemma scanned_positive:
  "\<forall>(k, v) \<in> set (type_counts (summary_of (scan_loop files ([], 0)))). k \<noteq> [] \<and> 0 < v"
proof -
  have "\<forall>t \<in> set (concat (map (counted_tags \<circ> snd) files)). t \<noteq> []"
    by (auto dest: counted_tags_nonempty)
  then have "\<forall>(k, v) \<in> set (fold counter_incr (concat (map (counted_tags \<circ> snd) files)) []).
      k \<noteq> [] \<and> 0 < v"
    by (intro fold_counter_incr_positive) simp_all
  then show ?thesis
    by (simp add: summary_of_def scan_loop_eq)
qed

text \<open>
  C10. In every summary that \<open>get_defs_summary\<close> returns, from any cache the program
  can hold, every key of \<open>type_counts\<close> is a non-empty string and every value is
  strictly positive.
\<close>

theorem type_counts_keys_nonempty_values_positive:
  assumes "reachable cache"
    and "get_defs_summary resolve cache mod_path nd = Inr (s, cache', plog)"
  shows "\<forall>(k, v) \<in> set (type_counts s). k \<noteq> [] \<and> 0 < v"
proof -
  from assms obtain files where "s = summary_of (scan_loop files ([], 0))"
    using get_defs_summary_scanned by blast
  then show ?thesis using scanned_positive [of files] by simp
qed

theorem type_counts_keys_nonempty_values_positive_witness:
  "reachable [ex_resolve ex_path \<mapsto> ((2, 4), ex_summary)] \<and>
   get_defs_summary ex_resolve [ex_resolve ex_path \<mapsto> ((2, 4), ex_summary)] ex_path
       (Present ex_mod_versions) =
     Inr (ex_summary, [ex_resolve ex_path \<mapsto> ((2, 4), ex_summary)],
          [ex_path @ [''About'', ''About.xml'']]) \<and>
   list_all (\<lambda>(k, v). k \<noteq> [] \<and> 0 < v) (type_counts ex_summary)"
proof -
  have r: "reachable [ex_resolve ex_path \<mapsto> ((2, 4), ex_summary)]"
    using reachable.call [OF reachable.initial ex_versions_first_get] .
  from type_counts_keys_nonempty_values_positive [OF r ex_versions_second_get]
  have "list_all (\<lambda>(k, v). k \<noteq> [] \<and> 0 < v) (type_counts ex_summary)"
    unfolding list_all_iff .
  with r ex_versions_second_get show ?thesis by blast
qed

text \<open>
  C7. A scan never raises because a file fails to parse: its result is the summary of
  the scan of the enumerated files without those that fail to parse, which therefore add
  nothing to \<open>type_counts\<close> and \<open>files_scanned\<close>. A \<open>Defs\<close> directory with
  one well-formed file of three children and one malformed file gives
  \<open>total_defs = 3\<close> and \<open>files_scanned = 1\<close>.
\<close>

theorem malformed_file_is_skipped:
  "(iter_defs_xml_files mod_path nd = Inr (files, parses) \<longrightarrow>
      scan_defs mod_path nd =
        Inr (summary_of
               (scan_loop (filter (\<lambda>(p, f). et_parse f \<noteq> ParseError) files) ([], 0)),
             parses @ map fst files))
   \<and> scan_defs ex_path (Present ex_mod_malformed) =
        Inr (\<lparr>total_defs = 3, type_counts = [(''ThingDef'', 2), (''RecipeDef'', 1)],
              files_scanned = 1\<rparr>,
             [ex_path @ [''Defs'', ''good.xml''], ex_path @ [''Defs'', ''bad.xml'']])"
  by (simp add: scan_defs_Inr scan_loop_filter_parseable ex_malformed_scan)

theorem malformed_file_is_skipped_witness:
  "iter_defs_xml_files ex_path (Present ex_mod_malformed) =
     Inr ([(ex_path @ [''Defs'', ''good.xml''], \<lparr>st_mtime = Some 5, et_parse = ex_defs3\<rparr>),
           (ex_path @ [''Defs'', ''bad.xml''], \<lparr>st_mtime = Some 7, et_parse = ParseError\<rparr>)], [])
   \<and> scan_defs ex_path (Present ex_mod_malformed) =
     Inr (summary_of (scan_loop
            [(ex_path @ [''Defs'', ''good.xml''], \<lparr>st_mtime = Some 5, et_parse = ex_defs3\<rparr>)]
            ([], 0)),
          [ex_path @ [''Defs'', ''good.xml''], ex_path @ [''Defs'', ''bad.xml'']])"
proof -
  note files = ex_malformed_files
  have "ex_defs3 \<noteq> ParseError" by (simp add: ex_defs3_def)
  with malformed_file_is_skipped [THEN conjunct1, rule_format, OF files] files
  show ?thesis by simp
qed

lemma scan_file_not_defs:
  assumes "et_parse f = Document rt" and "strip_ns (tag rt) = Inr t" and "lower t \<noteq> ''defs''"
  shows "scan_file f st = st"
  using assms by (cases st) (simp add: scan_file_def)

lemma scan_file_string_tags:
  assumes "et_parse f = Document rt" and "strip_ns (tag rt) = Inr t" and "lower t = ''defs''"
    and "\<forall>x \<in> set (children rt). tag x \<noteq> Callable"
  shows "scan_file f (c, n) = (fold counter_incr (counted_children (children rt)) c, n + 1)"
  using assms by (simp add: scan_file_def count_children_eq)

lemma counted_children_string_tags:
  assumes "\<forall>x \<in> set cs. \<exists>name. tag x = Str name"
  shows "counted_children cs =
           filter (\<lambda>t. t \<noteq> []) (map (\<lambda>x. case strip_ns (tag x) of Inr t \<Rightarrow> t) cs)"
  using assms by (induction cs) (auto split: sum.splits simp: strip_ns_Inl)

text \<open>
  C8. The claim asks that a parsed file with a \<open>Defs\<close> root adds one to
  \<open>files_scanned\<close> and one to the counter of each child of the root. With lxml, a
  comment between the children of the root has a callable tag: \<open>_strip_ns\<close> raises
  on it inside the \<open>try\<close>, the handler skips the rest of the file, and the
  increments already made stay. The file below, a \<open>Defs\<close> root with two
  \<open>ThingDef\<close> children and a comment between them, leaves \<open>ThingDef\<close> at 1
  and \<open>files_scanned\<close> at 0. The three lemmas before it give what the code does on
  files whose root has no such child, which is what the claim says.
\<close>

theorem comment_child_cuts_the_count:
  "scan_defs ex_path (Present ex_mod_comment) =
     Inr (\<lparr>total_defs = 1, type_counts = [(''ThingDef'', 1)], files_scanned = 0\<rparr>,
          [ex_path @ [''Defs'', ''things.xml'']])"
  by (rule ex_comment_scan)

subsection \<open>The metrics reader\<close>

lemma get_total_ms_caches:
  "get_total_ms_by_mod_name py_int metrics_file st = (metrics, st', n) \<Longrightarrow>
   m_cache st' = Some metrics"
  by (auto simp: get_total_ms_by_mod_name_def Let_def
           split: option.splits parsed.splits)

lemma get_total_ms_cached:
  "m_cache st = Some metrics \<Longrightarrow>
   get_total_ms_by_mod_name py_int metrics_file st = (metrics, st, 0)"
  by (simp add: get_total_ms_by_mod_name_def)

lemma subsequent_calls_cached:
  "m_cache st = Some metrics \<Longrightarrow>
   subsequent_calls py_int later st = replicate (length later) (metrics, 0)"
  by (induction later) (simp_all add: get_total_ms_cached)

lemma ex_metrics_first_call:
  "get_total_ms_by_mod_name ex_py_int (Some ex_metrics_xml) ex_metrics_state0 =
     ([(''foo'', 12)], \<lparr>m_cache = Some [(''foo'', 12)], m_max_total_ms = Some 12\<rparr>, 1)"
  by (simp add: get_total_ms_by_mod_name_def ex_metrics_xml_def ex_metrics_state0_def
      find_tag_def findall_def attr_get_def ex_py_int_def lower_def lower_char_def
      max_values_def Let_def)

text \<open>
  C9. Once \<open>get_total_ms_by_mod_name\<close> has returned a mapping, every later call
  returns that same mapping and parses nothing, whatever the metrics file holds (or
  whether it exists) at the time of the later call: the module state after the first
  call decides the result.
\<close>

theorem metrics_static_snapshot:
  assumes "get_total_ms_by_mod_name py_int metrics_file st = (metrics, st', n)"
  shows "subsequent_calls py_int later st' = replicate (length later) (metrics, 0)"
  using assms by (intro subsequent_calls_cached get_total_ms_caches)

theorem metrics_static_snapshot_witness:
  "get_total_ms_by_mod_name ex_py_int (Some ex_metrics_xml) ex_metrics_state0 =
     ([(''foo'', 12)], \<lparr>m_cache = Some [(''foo'', 12)], m_max_total_ms = Some 12\<rparr>, 1) \<and>
   subsequent_calls ex_py_int [None, Some ParseError]
       \<lparr>m_cache = Some [(''foo'', 12)], m_max_total_ms = Some 12\<rparr> =
     [([(''foo'', 12)], 0), ([(''foo'', 12)], 0)]"
  using metrics_static_snapshot [OF ex_metrics_first_call, of "[None, Some ParseError]"]
    ex_metrics_first_call
  by (simp add: numeral_2_eq_2)

subsection \<open>Signature engine\<close>

lemma ex_statable_files:
  "iter_defs_xml_files ex_path (Present ex_mod_statable) =
     Inr ([(ex_path @ [''Defs'', ''a.xml''], \<lparr>st_mtime = Some 5, et_parse = ex_defs1\<rparr>)], [])"
  by (simp add: eval_strings eval_enumerator eval_examples ex_mod_statable_def)

lemma ex_unstatable_files:
  "iter_defs_xml_files ex_path (Present ex_mod_unstatable) =
     Inr ([(ex_path @ [''Defs'', ''a.xml''], \<lparr>st_mtime = Some 5, et_parse = ex_defs1\<rparr>),
           (ex_path @ [''Defs'', ''gone.xml''], \<lparr>st_mtime = None, et_parse = ParseError\<rparr>)], [])"
  by (simp add: eval_strings eval_enumerator eval_examples ex_mod_unstatable_def)

lemma latest_mtime_loop_Max:
  "latest_mtime_loop files m = Max (insert m (set (statable_mtimes files)))"
proof (induction files m rule: latest_mtime_loop.induct)
  case (1 m)
  show ?case by (simp add: statable_mtimes_def List.map_filter_simps)
next
  case (2 p f files m)
  show ?case
  proof (cases "st_mtime f")
    case None
    with 2 show ?thesis by (simp add: statable_mtimes_def List.map_filter_simps)
  next
    case (Some t)
    have "Max (insert (max m t) (set (statable_mtimes files))) =
          Max (insert m (insert t (set (statable_mtimes files))))"
      by (cases "set (statable_mtimes files) = {}") (simp_all add: max.assoc)
    moreover have "(if m < t then t else m) = max m t" by (simp add: max_def)
    ultimately show ?thesis
      using 2 Some by (simp add: statable_mtimes_def List.map_filter_simps)
  qed
qed

text \<open>
  C4, as amended. The signature is \<open>(0, 0.0)\<close> when no file is enumerated.
  Otherwise its first component is the number of enumerated files, those that cannot
  be stat'd included, and its second component is the greatest of 0.0 and the
  modification times of the files that can be stat'd: a file that cannot be stat'd
  is left out of the second component only.
\<close>

theorem signature_counts_files_and_latest_statable_mtime:
  assumes "iter_defs_xml_files mod_path nd = Inr (files, parses)"
  shows "compute_signature mod_path nd =
           Inr (if files = [] then (0, 0)
                else (length files, Max (insert 0 (set (statable_mtimes files)))), parses)"
  using assms by (simp add: compute_signature_def latest_mtime_loop_Max)

theorem signature_counts_files_and_latest_statable_mtime_witness:
  "iter_defs_xml_files ex_path (Present ex_mod_unstatable) =
     Inr ([(ex_path @ [''Defs'', ''a.xml''], \<lparr>st_mtime = Some 5, et_parse = ex_defs1\<rparr>),
           (ex_path @ [''Defs'', ''gone.xml''], \<lparr>st_mtime = None, et_parse = ParseError\<rparr>)], [])
   \<and> compute_signature ex_path (Present ex_mod_unstatable) = Inr ((2, Max {0, 5}), [])"
  using signature_counts_files_and_latest_statable_mtime [OF ex_unstatable_files]
    ex_unstatable_files
  by (simp add: statable_mtimes_def List.map_filter_simps insert_commute)

text \<open>
  The claim as stated fails: two mods that differ only by a file that cannot be
  stat'd have different signatures, since \<open>len(files)\<close> counts it.
\<close>

theorem unstatable_file_changes_signature:
  "compute_signature ex_path (Present ex_mod_unstatable) = Inr ((2, 5), []) \<and>
   compute_signature ex_path (Present ex_mod_statable) = Inr ((1, 5), [])"
  by (simp add: compute_signature_def ex_unstatable_files ex_statable_files)

subsection \<open>Version resolver\<close>

lemma version_order_lexicographic:
  "((a, b) \<le> (c, d)) = (a < c \<or> a = c \<and> b \<le> d)" for a b c d :: nat
  by auto

lemma py_max_Max:
  assumes "xs \<noteq> []"
  shows "py_max xs = Inr (Max (set xs))"
proof (cases xs)
  case Nil
  with assms show ?thesis by simp
next
  case (Cons x rest)
  then show ?thesis using Max.set_eq_fold [of x rest] by simp
qed

lemma subscript_Inr: "map_of available k = Some d \<Longrightarrow> subscript available k = Inr d"
  by (simp add: subscript_def)

lemma choose_version_dir_eq:
  assumes sup: "parse_supported_versions mod_root nd = Inr (supported, parses)"
    and av: "find_available_version_dirs mod_root nd = Inr available"
  shows "choose_version_dir mod_root nd =
           Inr (let declared = set (List.map_filter normalize_version_string supported);
                    candidates = declared \<inter> fst ` set available
                in if candidates \<noteq> {} then map_of available (Max candidates)
                   else if available \<noteq> [] then map_of available (Max (fst ` set available))
                   else None,
                parses)"
proof -
  define supported_norm where "supported_norm = List.map_filter normalize_version_string supported"
  define cands where "cands = filter (\<lambda>nv. map_of available nv \<noteq> None) supported_norm"
  have set_cands: "set cands = set supported_norm \<inter> fst ` set available"
    by (auto simp: cands_def map_of_eq_None_iff)
  have cv: "choose_version_dir mod_root nd =
      (if cands \<noteq> [] then
         (case py_max cands of
            Inl e \<Rightarrow> Inl e
          | Inr chosen \<Rightarrow>
              (case subscript available chosen of
                 Inl e \<Rightarrow> Inl e
               | Inr d \<Rightarrow> Inr (Some d, parses)))
       else if available \<noteq> [] then
         (case py_max (map fst available) of
            Inl e \<Rightarrow> Inl e
          | Inr chosen \<Rightarrow>
              (case subscript available chosen of
                 Inl e \<Rightarrow> Inl e
               | Inr d \<Rightarrow> Inr (Some d, parses)))
       else Inr (None, parses))"
    unfolding choose_version_dir_def cands_def supported_norm_def
    by (simp add: sup av Let_def)
  have lhs: "set (List.map_filter normalize_version_string supported) \<inter> fst ` set available =
      set cands"
    by (simp add: set_cands supported_norm_def)
  show ?thesis
  proof (cases "cands = []")
    case False
    then have m: "py_max cands = Inr (Max (set cands))" by (rule py_max_Max)
    from False have "Max (set cands) \<in> set cands" by (intro Max_in) simp_all
    then have "Max (set cands) \<in> fst ` set available" by (simp add: set_cands)
    then have "map_of available (Max (set cands)) \<noteq> None"
      by (simp add: map_of_eq_None_iff)
    then obtain d where d: "map_of available (Max (set cands)) = Some d"
      by blast
    from False have ne: "set supported_norm \<inter> fst ` set available \<noteq> {}"
      using set_cands by auto
    from False m d show ?thesis
      by (simp add: cv lhs Let_def subscript_Inr)
  next
    case True
    then have e: "set supported_norm \<inter> fst ` set available = {}"
      using set_cands by simp
    show ?thesis
    proof (cases "available = []")
      case True
      with \<open>cands = []\<close> show ?thesis
        by (simp add: cv lhs Let_def)
    next
      case False
      then have m: "py_max (map fst available) = Inr (Max (fst ` set available))"
        using py_max_Max [of "map fst available"] by simp
      from False have "Max (fst ` set available) \<in> fst ` set available"
        by (intro Max_in) simp_all
      then have "map_of available (Max (fst ` set available)) \<noteq> None"
        by (simp add: map_of_eq_None_iff)
      then obtain d where d: "map_of available (Max (fst ` set available)) = Some d"
        by blast
      from False \<open>cands = []\<close> m d show ?thesis
        by (simp add: cv lhs Let_def subscript_Inr)
    qed
  qed
qed

lemma choose_version_dir_None_iff:
  assumes sup: "parse_supported_versions mod_root nd = Inr (supported, parses)"
    and av: "find_available_version_dirs mod_root nd = Inr available"
  shows "choose_version_dir mod_root nd = Inr (None, parses) \<longleftrightarrow> available = []"
proof -
  let ?C = "set (List.map_filter normalize_version_string supported) \<inter> fst ` set available"
  have 1: "map_of available (Max ?C) \<noteq> None" if "?C \<noteq> {}"
  proof -
    from that have "Max ?C \<in> ?C" by (intro Max_in) simp_all
    then show ?thesis by (simp add: map_of_eq_None_iff)
  qed
  have 2: "map_of available (Max (fst ` set available)) \<noteq> None" if "available \<noteq> []"
  proof -
    from that have "Max (fst ` set available) \<in> fst ` set available" by (intro Max_in) simp_all
    then show ?thesis by (simp add: map_of_eq_None_iff)
  qed
  show ?thesis
    using 1 2 by (auto simp: choose_version_dir_eq [OF sup av] Let_def)
qed

text \<open>
  What the resolver returns, in terms of the version strings that
  \<open>_parse_supported_versions\<close> returned and of the mapping that
  \<open>_find_available_version_dirs\<close> built: the directory of the greatest declared tag
  that is a key of the mapping when there is one, otherwise the directory of the
  greatest key when there is one, otherwise nothing. The order on tags is the
  lexicographic order of (major, minor), see \<open>version_order_lexicographic\<close>.
\<close>

lemma choose_version_dir_maximum:
  assumes "parse_supported_versions mod_root nd = Inr (supported, parses)"
    and "find_available_version_dirs mod_root nd = Inr available"
  shows "choose_version_dir mod_root nd =
           Inr (let declared = set (List.map_filter normalize_version_string supported);
                    candidates = declared \<inter> fst ` set available
                in if candidates \<noteq> {} then map_of available (Max candidates)
                   else if available \<noteq> [] then map_of available (Max (fst ` set available))
                   else None,
                parses)
         \<and> (choose_version_dir mod_root nd = Inr (None, parses) \<longleftrightarrow> available = [])"
  using choose_version_dir_eq [OF assms] choose_version_dir_None_iff [OF assms] by simp

lemma ex_versions_supported:
  "parse_supported_versions ex_path (Present ex_mod_versions) =
     Inr ([''1.4''], [ex_path @ [''About'', ''About.xml'']])"
  by (simp add: eval_strings eval_enumerator eval_examples ex_mod_versions_def ex_about_def
        ex_version_dir_def)

lemma ex_versions_available:
  "find_available_version_dirs ex_path (Present ex_mod_versions) =
     Inr [((1, 3), (ex_path @ [''1.3''], ex_version_dir ''a.xml'' 3)),
          ((1, 4), (ex_path @ [''1.4''], ex_version_dir ''b.xml'' 4)),
          ((1, 5), (ex_path @ [''1.5''], ex_version_dir ''c.xml'' 6))]"
  by (simp add: eval_strings eval_enumerator eval_examples ex_mod_versions_def ex_about_def
        ex_version_dir_def)

lemma ex_fallback_supported:
  "parse_supported_versions ex_path (Present ex_mod_fallback) = Inr ([], [])"
  by (simp add: eval_strings eval_enumerator eval_examples ex_mod_fallback_def
        ex_version_dir_def)

lemma ex_fallback_available:
  "find_available_version_dirs ex_path (Present ex_mod_fallback) =
     Inr [((1, 2), (ex_path @ [''1.2''], ex_version_dir ''a.xml'' 3)),
          ((1, 5), (ex_path @ [''1.5''], ex_version_dir ''b.xml'' 4)),
          ((1, 3), (ex_path @ [''1.3''], ex_version_dir ''c.xml'' 6))]"
  by (simp add: eval_strings eval_enumerator eval_examples ex_mod_fallback_def
        ex_version_dir_def)

text \<open>
  The two examples of the specification: version directories 1.3, 1.4 and 1.5 with a
  manifest that declares 1.4 resolve to 1.4; directories 1.2, 1.5 and 1.3 without a
  manifest resolve to 1.5.
\<close>

lemma ex_versions_choose:
  "choose_version_dir ex_path (Present ex_mod_versions) =
     Inr (Some (ex_path @ [''1.4''], ex_version_dir ''b.xml'' 4),
          [ex_path @ [''About'', ''About.xml'']])"
  using choose_version_dir_maximum [OF ex_versions_supported ex_versions_available]
  by (simp add: List.map_filter_simps eval_strings)

lemma ex_fallback_choose:
  "choose_version_dir ex_path (Present ex_mod_fallback) =
     Inr (Some (ex_path @ [''1.5''], ex_version_dir ''b.xml'' 4), [])"
  using choose_version_dir_maximum [OF ex_fallback_supported ex_fallback_available]
  by (simp add: List.map_filter_simps)

lemma ex_commented_supported:
  "parse_supported_versions ex_path (Present ex_mod_commented) =
     Inr ([], [ex_path @ [''About'', ''About.xml'']])"
  by (simp add: eval_strings eval_enumerator eval_examples ex_mod_commented_def
        ex_about_commented_def ex_version_dir_def)

lemma ex_commented_available:
  "find_available_version_dirs ex_path (Present ex_mod_commented) =
     Inr [((1, 3), (ex_path @ [''1.3''], ex_version_dir ''a.xml'' 3)),
          ((1, 4), (ex_path @ [''1.4''], ex_version_dir ''b.xml'' 4)),
          ((1, 5), (ex_path @ [''1.5''], ex_version_dir ''c.xml'' 6))]"
  by (simp add: eval_strings eval_enumerator eval_examples ex_mod_commented_def
        ex_about_commented_def ex_version_dir_def)

lemma ex_commented_choose:
  "choose_version_dir ex_path (Present ex_mod_commented) =
     Inr (Some (ex_path @ [''1.5''], ex_version_dir ''c.xml'' 6),
          [ex_path @ [''About'', ''About.xml'']])"
  using choose_version_dir_maximum [OF ex_commented_supported ex_commented_available]
  by (simp add: List.map_filter_simps)

text \<open>
  C1. The claim asks for the directory of the greatest declared version tag that has a
  directory. With lxml, a comment in the manifest that comes before the
  \<open>supportedVersions\<close> element in document order (or is one of its children) is
  reached by \<open>root.iter()\<close> with a callable tag; \<open>_strip_ns\<close> raises on it
  inside the \<open>try\<close> of \<open>_parse_supported_versions\<close>, which then returns no
  declared versions at all, and the resolver falls back to the greatest directory
  present. The mod below has the directories 1.3, 1.4 and 1.5 (read as the tags (1, 3),
  (1, 4), (1, 5)) and a manifest that declares 1.4 after a comment: the declared list
  comes out empty and the resolver returns 1.5, where the claim gives 1.4. The same
  manifest without the comment declares 1.4 and resolves to 1.4.
\<close>

theorem commented_manifest_resolves_to_highest_directory:
  "parse_supported_versions ex_path (Present ex_mod_commented) =
     Inr ([], [ex_path @ [''About'', ''About.xml'']]) \<and>
   find_available_version_dirs ex_path (Present ex_mod_commented) =
     Inr [((1, 3), (ex_path @ [''1.3''], ex_version_dir ''a.xml'' 3)),
          ((1, 4), (ex_path @ [''1.4''], ex_version_dir ''b.xml'' 4)),
          ((1, 5), (ex_path @ [''1.5''], ex_version_dir ''c.xml'' 6))] \<and>
   choose_version_dir ex_path (Present ex_mod_commented) =
     Inr (Some (ex_path @ [''1.5''], ex_version_dir ''c.xml'' 6),
          [ex_path @ [''About'', ''About.xml'']]) \<and>
   parse_supported_versions ex_path (Present ex_mod_versions) =
     Inr ([''1.4''], [ex_path @ [''About'', ''About.xml'']]) \<and>
   choose_version_dir ex_path (Present ex_mod_versions) =
     Inr (Some (ex_path @ [''1.4''], ex_version_dir ''b.xml'' 4),
          [ex_path @ [''About'', ''About.xml'']])"
  by (simp only: ex_commented_supported ex_commented_available ex_commented_choose
        ex_versions_supported ex_versions_choose simp_thms)

subsection \<open>What can raise\<close>

lemma first_entry_SomeD:
  "first_entry P parent es = Some (q, n) \<Longrightarrow>
     \<exists>name. (name, n) \<in> set es \<and> P name n \<and> q = parent @ [name]"
  by (induction es) (auto split: if_splits)

lemma first_entry_None_iff:
  "first_entry P parent es = None \<longleftrightarrow> (\<forall>(name, n) \<in> set es. \<not> P name n)"
  by (induction es) (auto split: if_splits)

lemma find_dir_missing:
  "scandir nd = Inl FileNotFoundError \<Longrightarrow> find_case_insensitive_dir parent nd name = Inr None"
  by (simp add: find_case_insensitive_dir_def)

lemma find_dir_Dir:
  "find_case_insensitive_dir parent (Present (Dir es)) name =
     Inr (first_entry (\<lambda>n d. is_dir d \<and> lower n = lower name) parent es)"
  by (simp add: find_case_insensitive_dir_def)

lemma find_dir_raises:
  "scandir nd = Inl e \<Longrightarrow> e \<noteq> FileNotFoundError \<Longrightarrow>
     find_case_insensitive_dir parent nd name = Inl e"
  by (cases e) (simp_all add: find_case_insensitive_dir_def)

lemma scandir_cases:
  obtains (missing) "scandir nd = Inl FileNotFoundError"
  | (raises) e where "scandir nd = Inl e" "e \<noteq> FileNotFoundError"
  | (lists) es where "nd = Present (Dir es)"
proof (cases "scandir nd")
  case (Inl e)
  then show thesis using missing raises by (cases "e = FileNotFoundError") auto
next
  case (Inr es)
  then have "nd = Present (Dir es)" by (cases nd rule: scandir.cases) auto
  then show thesis by (rule lists)
qed

lemma find_dir_is_dir:
  assumes "find_case_insensitive_dir parent nd name = Inr (Some (q, n))"
  shows "is_dir n"
proof (cases nd rule: scandir_cases)
  case missing
  with assms show ?thesis by (simp add: find_dir_missing)
next
  case (raises e)
  with assms show ?thesis by (simp add: find_dir_raises)
next
  case (lists es)
  with assms have "first_entry (\<lambda>n d. is_dir d \<and> lower n = lower name) parent es = Some (q, n)"
    by (simp add: find_dir_Dir)
  from first_entry_SomeD [OF this] show ?thesis by blast
qed

lemma is_dir_iff: "is_dir n \<longleftrightarrow> (\<exists>es. n = Dir es) \<or> n = Unreadable"
  by (cases n) auto

lemma find_dir_cases:
  assumes "case scandir nd of Inl e \<Rightarrow> e = FileNotFoundError | Inr es \<Rightarrow> True"
  obtains (none) "find_case_insensitive_dir parent nd name = Inr None"
  | (dir) q es where "find_case_insensitive_dir parent nd name = Inr (Some (q, Dir es))"
  | (unreadable) q where "find_case_insensitive_dir parent nd name = Inr (Some (q, Unreadable))"
proof (cases nd rule: scandir_cases)
  case missing
  then show thesis by (intro none find_dir_missing)
next
  case (raises e)
  with assms show thesis by simp
next
  case (lists es)
  let ?r = "first_entry (\<lambda>n d. is_dir d \<and> lower n = lower name) parent es"
  have f: "find_case_insensitive_dir parent nd name = Inr ?r"
    unfolding lists by (rule find_dir_Dir)
  show thesis
  proof (cases ?r)
    case None
    with f show thesis by (intro none) simp
  next
    case (Some a)
    obtain q n where a: "a = (q, n)" by (cases a)
    with f Some have fq: "find_case_insensitive_dir parent nd name = Inr (Some (q, n))" by simp
    then have "is_dir n" by (rule find_dir_is_dir)
    then consider es' where "n = Dir es'" | "n = Unreadable" by (auto simp: is_dir_iff)
    then show thesis using fq dir unreadable by cases auto
  qed
qed

lemma about_dir_eq:
  "find_case_insensitive_dir mod_root nd ''About'' = Inr d \<Longrightarrow> about_dir mod_root nd = d"
  by (simp add: about_dir_def)

lemma about_xml_path_Inr:
  assumes "case scandir nd of Inl e \<Rightarrow> e = FileNotFoundError | Inr es \<Rightarrow> True"
    and "case about_dir mod_root nd of Some (q, Unreadable) \<Rightarrow> False | _ \<Rightarrow> True"
  shows "\<exists>r. about_xml_path mod_root nd = Inr r"
  using assms(1)
proof (cases rule: find_dir_cases [where nd = nd and parent = mod_root and name = "''About''"])
  case none
  then show ?thesis by (simp add: about_xml_path_def)
next
  case (dir q es)
  then show ?thesis by (simp add: about_xml_path_def)
next
  case (unreadable q)
  with assms(2) show ?thesis by (simp add: about_dir_eq)
qed

lemma about_xml_path_Inl:
  assumes "about_dir mod_root nd = Some (q, Unreadable)"
  shows "about_xml_path mod_root nd = Inl PermissionError"
proof -
  from assms have "find_case_insensitive_dir mod_root nd ''About'' = Inr (Some (q, Unreadable))"
    by (auto simp: about_dir_def split: sum.splits)
  then show ?thesis by (simp add: about_xml_path_def)
qed

lemma parse_supported_versions_cases:
  obtains (raises) e where "about_xml_path mod_root nd = Inl e"
      "parse_supported_versions mod_root nd = Inl e"
  | (returns) r supported parses where "about_xml_path mod_root nd = Inr r"
      "parse_supported_versions mod_root nd = Inr (supported, parses)"
proof (cases "about_xml_path mod_root nd")
  case (Inl e)
  then show thesis by (intro raises [of e]) (simp_all add: parse_supported_versions_def)
next
  case (Inr r)
  have "\<exists>supported parses. parse_supported_versions mod_root nd = Inr (supported, parses)"
  proof (cases r)
    case None
    with Inr show ?thesis by (simp add: parse_supported_versions_def)
  next
    case (Some a)
    obtain p n where a: "a = (p, n)" by (cases a)
    show ?thesis
    proof (cases n)
      case (Dir es)
      with Inr Some a show ?thesis by (simp add: parse_supported_versions_def)
    next
      case Unreadable
      with Inr Some a show ?thesis by (simp add: parse_supported_versions_def)
    next
      case (File f)
      show ?thesis
      proof (cases "et_parse f")
        case ParseError
        with Inr Some a File show ?thesis by (simp add: parse_supported_versions_def)
      next
        case (Document rt)
        with Inr Some a File show ?thesis
          by (cases "find_supported (iter rt)") (simp_all add: parse_supported_versions_def)
      qed
    qed
  qed
  with Inr show thesis using returns by blast
qed

lemma available_loop_dirs:
  assumes "\<forall>(k, q, n) \<in> set mapping. is_dir n"
  shows "\<forall>(k, q, n) \<in> set (available_loop mod_root es mapping). is_dir n"
  using assms
proof (induction es arbitrary: mapping)
  case Nil
  then show ?case by simp
next
  case (Cons e es)
  obtain name nd where e: "e = (name, nd)" by (cases e)
  show ?case
  proof (cases "is_dir nd \<and> normalize_version_string name \<noteq> None")
    case False
    then have "available_loop mod_root (e # es) mapping = available_loop mod_root es mapping"
      unfolding e by (cases "normalize_version_string name") simp_all
    with Cons.IH [OF Cons.prems] show ?thesis by simp
  next
    case True
    then obtain nv where nv: "normalize_version_string name = Some nv" and d: "is_dir nd"
      by blast
    let ?m = "AList.update nv (mod_root @ [name], nd) mapping"
    have "\<forall>(k, q, n) \<in> set ?m. is_dir n"
      using Cons.prems d by (auto dest!: set_update_cases)
    then have "\<forall>(k, q, n) \<in> set (available_loop mod_root es ?m). is_dir n"
      by (rule Cons.IH)
    moreover have "available_loop mod_root (e # es) mapping = available_loop mod_root es ?m"
      unfolding e using nv d by simp
    ultimately show ?thesis by simp
  qed
qed

lemma find_available_version_dirs_Inr:
  assumes "case scandir nd of Inl e \<Rightarrow> e = FileNotFoundError | Inr es \<Rightarrow> True"
  shows "\<exists>available. find_available_version_dirs mod_root nd = Inr available \<and>
           (\<forall>(k, q, n) \<in> set available. is_dir n)"
proof (cases nd rule: scandir_cases)
  case missing
  then show ?thesis by (simp add: find_available_version_dirs_def)
next
  case (raises e)
  with assms show ?thesis by simp
next
  case (lists es)
  have "\<forall>(k, q, n) \<in> set (available_loop mod_root es []). is_dir n"
    by (rule available_loop_dirs) simp
  with lists show ?thesis by (simp add: find_available_version_dirs_def)
qed

lemma choose_version_dir_Inr:
  assumes "case scandir nd of Inl e \<Rightarrow> e = FileNotFoundError | Inr es \<Rightarrow> True"
    and "case about_dir mod_root nd of Some (q, Unreadable) \<Rightarrow> False | _ \<Rightarrow> True"
  shows "\<exists>d parses. choose_version_dir mod_root nd = Inr (d, parses) \<and>
           (\<forall>q n. d = Some (q, n) \<longrightarrow> is_dir n)"
proof -
  from about_xml_path_Inr [OF assms] obtain r where r: "about_xml_path mod_root nd = Inr r" ..
  obtain supported parses
    where sup: "parse_supported_versions mod_root nd = Inr (supported, parses)"
    using r by (cases rule: parse_supported_versions_cases [where mod_root = mod_root and nd = nd]) auto
  from find_available_version_dirs_Inr [OF assms(1)] obtain available
    where av: "find_available_version_dirs mod_root nd = Inr available"
      and dirs: "\<forall>(k, q, n) \<in> set available. is_dir n" by blast
  have val: "is_dir n" if "map_of available k = Some (q, n)" for k q n
    using map_of_SomeD [OF that] dirs by auto
  define d where "d = (let declared = set (List.map_filter normalize_version_string supported);
                    candidates = declared \<inter> fst ` set available
                in if candidates \<noteq> {} then map_of available (Max candidates)
                   else if available \<noteq> [] then map_of available (Max (fst ` set available))
                   else None)"
  have ch: "choose_version_dir mod_root nd = Inr (d, parses)"
    unfolding d_def by (rule choose_version_dir_eq [OF sup av])
  have "is_dir n" if "d = Some (q, n)" for q n
    using that val unfolding d_def Let_def by (metis option.distinct(1))
  with ch show ?thesis by blast
qed

lemma choose_version_dir_Inl:
  assumes "about_dir mod_root nd = Some (q, Unreadable)"
  shows "\<exists>e. choose_version_dir mod_root nd = Inl e"
proof (cases rule: parse_supported_versions_cases [where mod_root = mod_root and nd = nd])
  case (raises e)
  then show ?thesis by (simp add: choose_version_dir_def)
next
  case (returns r supported parses)
  with about_xml_path_Inl [OF assms] show ?thesis by simp
qed

lemma iter_defs_xml_files_Inr:
  assumes "scans_succeed mod_path nd"
  shows "\<exists>files parses. iter_defs_xml_files mod_path nd = Inr (files, parses)"
proof -
  from assms have ok: "case scandir nd of Inl e \<Rightarrow> e = FileNotFoundError | Inr es \<Rightarrow> True"
    and ab: "case about_dir mod_path nd of Some (q, Unreadable) \<Rightarrow> False | _ \<Rightarrow> True"
    and rv: "case resolved_version_dir mod_path nd of Some (q, Unreadable) \<Rightarrow> False | _ \<Rightarrow> True"
    by (simp_all add: scans_succeed_def)
  from ok obtain rd where rd: "find_case_insensitive_dir mod_path nd ''Defs'' = Inr rd"
    by (cases rule: find_dir_cases [where nd = nd and parent = mod_path and name = "''Defs''"]) auto
  from choose_version_dir_Inr [OF ok ab] obtain d parses
    where ch: "choose_version_dir mod_path nd = Inr (d, parses)"
      and dir: "\<forall>q n. d = Some (q, n) \<longrightarrow> is_dir n" by blast
  from ch have res: "resolved_version_dir mod_path nd = d"
    by (simp add: resolved_version_dir_def)
  show ?thesis
  proof (cases d)
    case None
    with rd ch show ?thesis by (simp add: iter_defs_xml_files_def)
  next
    case (Some a)
    obtain q n where a: "a = (q, n)" by (cases a)
    with dir Some have "is_dir n" by simp
    moreover from rv res Some a have "n \<noteq> Unreadable" by auto
    ultimately obtain es where "n = Dir es" by (auto simp: is_dir_iff)
    with rd ch Some a show ?thesis by (simp add: iter_defs_xml_files_def find_dir_Dir)
  qed
qed

lemma iter_defs_xml_files_Inl:
  assumes "\<not> scans_succeed mod_path nd"
  shows "\<exists>e. iter_defs_xml_files mod_path nd = Inl e"
proof (cases "find_case_insensitive_dir mod_path nd ''Defs''")
  case (Inl e)
  then show ?thesis by (simp add: iter_defs_xml_files_def)
next
  case (Inr rd)
  have ok: "case scandir nd of Inl e \<Rightarrow> e = FileNotFoundError | Inr es \<Rightarrow> True"
  proof (cases nd rule: scandir_cases)
    case (raises e)
    with Inr show ?thesis by (simp add: find_dir_raises)
  qed simp_all
  show ?thesis
  proof (cases "choose_version_dir mod_path nd")
    case (Inl e)
    with Inr show ?thesis by (simp add: iter_defs_xml_files_def)
  next
    case ch: (Inr r)
    obtain d parses where r: "r = (d, parses)" by (cases r)
    have ab: "case about_dir mod_path nd of Some (q, Unreadable) \<Rightarrow> False | _ \<Rightarrow> True"
    proof (rule ccontr)
      assume "\<not> ?thesis"
      then obtain q where "about_dir mod_path nd = Some (q, Unreadable)"
        by (auto split: option.splits node.splits)
      from choose_version_dir_Inl [OF this] ch show False by simp
    qed
    from ch r have res: "resolved_version_dir mod_path nd = d"
      by (simp add: resolved_version_dir_def)
    with assms ok ab obtain q where "d = Some (q, Unreadable)"
      by (auto simp: scans_succeed_def split: option.splits node.splits)
    with Inr ch r show ?thesis
      by (simp add: iter_defs_xml_files_def find_case_insensitive_dir_def)
  qed
qed


lemma get_hit:
  assumes "compute_signature mod_path nd = Inr (sg, parses)"
    and "cache (resolve mod_path) = Some (sg, s)"
  shows "get resolve cache mod_path nd = Inr (s, cache, parses)"
  using assms by (simp add: get_def)








lemma get_defs_summary_raises_below_a_file:
  "get_defs_summary ex_resolve Map.empty ex_path (Inaccessible NotADirectoryError) =
     Inl NotADirectoryError"
  by (simp add: get_defs_summary_def get_def compute_signature_def iter_defs_xml_files_def
        find_case_insensitive_dir_def)

lemma get_defs_summary_raises_on_unreadable:
  "get_defs_summary ex_resolve Map.empty ex_path (Present Unreadable) = Inl PermissionError"
  by (simp add: get_defs_summary_def get_def compute_signature_def iter_defs_xml_files_def
        find_case_insensitive_dir_def)

lemma get_defs_summary_raises_on_unreadable_about:
  "get_defs_summary ex_resolve Map.empty ex_path
     (Present (Dir [(''About'', Unreadable), (''Defs'', Dir [])])) = Inl PermissionError"
  by (simp add: get_defs_summary_def get_def compute_signature_def eval_enumerator
        eval_strings)

subsection \<open>Definition file enumerator\<close>

lemma file_under_nonempty: "file_under nd q f \<Longrightarrow> q \<noteq> []"
  by (induction rule: file_under.induct) simp_all

lemma file_under_File: "\<not> file_under (File g) q f"
  by (auto elim: file_under.cases)

lemma file_under_Unreadable: "\<not> file_under Unreadable q f"
  by (auto elim: file_under.cases)

lemma file_under_Dir:
  "file_under (Dir es) q f \<longleftrightarrow>
     (\<exists>name. q = [name] \<and> (name, File f) \<in> set es) \<or>
     (\<exists>name ds q'. q = name # q' \<and> (name, Dir ds) \<in> set es \<and> file_under (Dir ds) q' f)"
  by (auto elim: file_under.cases intro: file_under.intros)

lemma set_nondirs: "set (nondirs es) = {(name, f). (name, File f) \<in> set es}"
  by (induction es rule: nondirs.induct) auto

lemma xml_files_Nil: "xml_files [] = []"
  by (simp add: xml_files_def)

lemma xml_files_append: "xml_files (a @ b) = xml_files a @ xml_files b"
  by (simp add: xml_files_def)

lemma set_xml_files_Cons:
  "set (xml_files ((r, dirs, files) # w)) =
     {(r @ [name], f) | name f. (name, f) \<in> set files \<and> is_xml_name name} \<union> set (xml_files w)"
  by (auto simp: xml_files_def is_xml_name_def)

lemma set_xml_files_walk:
  "set (xml_files (os_walk r nd)) =
     {(r @ q, f) | q f. file_under nd q f \<and> is_xml_name (last q)}"
  and set_xml_files_walk_dirs:
  "set (xml_files (os_walk_dirs r es)) =
     {(r @ name # q, f) | name ds q f.
        (name, Dir ds) \<in> set es \<and> file_under (Dir ds) q f \<and> is_xml_name (last q)}"
proof (induction r nd and r es rule: os_walk_os_walk_dirs.induct)
  case (1 r f)
  show ?case by (simp add: xml_files_Nil file_under_File)
next
  case (2 r)
  show ?case by (simp add: xml_files_Nil file_under_Unreadable)
next
  case (3 r es)
  have "{(r @ q, f) | q f. file_under (Dir es) q f \<and> is_xml_name (last q)} =
        {(r @ [name], f) | name f. (name, File f) \<in> set es \<and> is_xml_name name} \<union>
        {(r @ name # q, f) | name ds q f.
           (name, Dir ds) \<in> set es \<and> file_under (Dir ds) q f \<and> is_xml_name (last q)}"
    (is "?L = ?A \<union> ?B")
  proof (intro set_eqI iffI)
    fix x assume "x \<in> ?L"
    then obtain q f where x: "x = (r @ q, f)" and fu: "file_under (Dir es) q f"
      and xm: "is_xml_name (last q)" by blast
    from fu consider (here) name where "q = [name]" "(name, File f) \<in> set es"
      | (below) name ds q' where "q = name # q'" "(name, Dir ds) \<in> set es"
          "file_under (Dir ds) q' f"
      using file_under_Dir [of es q f] by blast
    then show "x \<in> ?A \<union> ?B"
    proof cases
      case here
      with x xm show ?thesis by auto
    next
      case below
      then have "q' \<noteq> []" by (auto dest: file_under_nonempty)
      with below x xm show ?thesis by auto
    qed
  next
    fix x assume "x \<in> ?A \<union> ?B"
    then show "x \<in> ?L"
    proof
      assume "x \<in> ?A"
      then obtain name f where "x = (r @ [name], f)" "(name, File f) \<in> set es"
        "is_xml_name name" by blast
      then show ?thesis using file_under.here [of name f es] by force
    next
      assume "x \<in> ?B"
      then obtain name ds q f where x: "x = (r @ name # q, f)" and m: "(name, Dir ds) \<in> set es"
        and fu: "file_under (Dir ds) q f" and xm: "is_xml_name (last q)" by blast
      from fu have "q \<noteq> []" by (rule file_under_nonempty)
      with xm have "is_xml_name (last (name # q))" by simp
      with x file_under.below [OF m fu] show ?thesis by blast
    qed
  qed
  with 3 show ?case by (simp add: set_xml_files_Cons set_nondirs)
next
  case (4 r)
  show ?case by (simp add: xml_files_Nil)
next
  case (5 r name f es)
  then show ?case by auto
next
  case (6 r name es)
  then show ?case by (auto simp: xml_files_Nil)
next
  case (7 r name ds es)
  have E: "{(r @ name' # q, f) | name' ds' q f.
          (name', Dir ds') \<in> set ((name, Dir ds) # es) \<and> file_under (Dir ds') q f \<and>
          is_xml_name (last q)} =
        {((r @ [name]) @ q, f) | q f. file_under (Dir ds) q f \<and> is_xml_name (last q)} \<union>
        {(r @ name' # q, f) | name' ds' q f.
          (name', Dir ds') \<in> set es \<and> file_under (Dir ds') q f \<and> is_xml_name (last q)}"
    by auto
  have "set (xml_files (os_walk_dirs r ((name, Dir ds) # es))) =
        set (xml_files (os_walk (r @ [name]) (Dir ds))) \<union> set (xml_files (os_walk_dirs r es))"
    by (simp only: os_walk_dirs.simps xml_files_append set_append)
  also have "\<dots> =
        {((r @ [name]) @ q, f) | q f. file_under (Dir ds) q f \<and> is_xml_name (last q)} \<union>
        {(r @ name' # q, f) | name' ds' q f.
          (name', Dir ds') \<in> set es \<and> file_under (Dir ds') q f \<and> is_xml_name (last q)}"
    by (simp only: "7.IH")
  finally show ?case unfolding E .
qed

lemma set_walk_defs: "set (walk_defs d) = xml_files_under d"
  by (cases d) (auto simp: walk_defs_def xml_files_under_def set_xml_files_walk)

lemma root_defs_dir_named:
  assumes "case scandir nd of Inl e \<Rightarrow> e = FileNotFoundError | Inr es \<Rightarrow> True"
  shows "case root_defs_dir parent nd of
           None \<Rightarrow> dirs_named ''Defs'' parent nd = {}
         | Some d \<Rightarrow> d \<in> dirs_named ''Defs'' parent nd"
proof (cases nd rule: scandir_cases)
  case missing
  then have "nd \<noteq> Present (Dir es)" for es by auto
  with missing show ?thesis
    by (simp add: root_defs_dir_def find_dir_missing dirs_named_def)
next
  case (raises e)
  with assms show ?thesis by simp
next
  case (lists es)
  let ?P = "\<lambda>name d. is_dir d \<and> lower name = lower ''Defs''"
  have r: "root_defs_dir parent nd = first_entry ?P parent es"
    by (simp add: root_defs_dir_def lists find_dir_Dir)
  show ?thesis
  proof (cases "first_entry ?P parent es")
    case None
    then have "\<forall>(name, n) \<in> set es. \<not> ?P name n"
      by (simp add: first_entry_None_iff)
    then have "dirs_named ''Defs'' parent nd = {}"
      by (auto simp: dirs_named_def lists)
    with r None show ?thesis by simp
  next
    case (Some a)
    obtain q n where a: "a = (q, n)" by (cases a)
    from first_entry_SomeD [OF Some [unfolded a]] obtain name
      where "(name, n) \<in> set es" "is_dir n" "lower name = lower ''Defs''" "q = parent @ [name]"
      by blast
    then have "a \<in> dirs_named ''Defs'' parent nd"
      by (auto simp: dirs_named_def lists a)
    with r Some show ?thesis by simp
  qed
qed

lemma enumerated_files_when_scans_succeed:
  assumes "scans_succeed mod_path nd"
  shows "\<exists>root_part version_part parses.
     iter_defs_xml_files mod_path nd = Inr (root_part @ version_part, parses) \<and>
     set root_part = xml_files_under (root_defs_dir mod_path nd) \<and>
     set version_part = xml_files_under (version_defs_dir mod_path nd) \<and>
     (case root_defs_dir mod_path nd of
        None \<Rightarrow> dirs_named ''Defs'' mod_path nd = {}
      | Some d \<Rightarrow> d \<in> dirs_named ''Defs'' mod_path nd) \<and>
     (case resolved_version_dir mod_path nd of
        None \<Rightarrow> version_part = []
      | Some (version_dir, version_nd) \<Rightarrow>
          (case version_defs_dir mod_path nd of
             None \<Rightarrow> dirs_named ''Defs'' version_dir (Present version_nd) = {}
           | Some d \<Rightarrow> d \<in> dirs_named ''Defs'' version_dir (Present version_nd))) \<and>
     (root_defs_dir mod_path nd = None \<and> version_defs_dir mod_path nd = None \<longrightarrow>
        root_part @ version_part = [])"
proof -
  let ?rd = "root_defs_dir mod_path nd" and ?vd = "version_defs_dir mod_path nd"
  from assms have ok: "case scandir nd of Inl e \<Rightarrow> e = FileNotFoundError | Inr es \<Rightarrow> True"
    and ab: "case about_dir mod_path nd of Some (q, Unreadable) \<Rightarrow> False | _ \<Rightarrow> True"
    and rv: "case resolved_version_dir mod_path nd of Some (q, Unreadable) \<Rightarrow> False | _ \<Rightarrow> True"
    by (simp_all add: scans_succeed_def)
  from iter_defs_xml_files_Inr [OF assms] obtain files parses
    where it: "iter_defs_xml_files mod_path nd = Inr (files, parses)" by blast
  then have files: "files = walk_defs ?rd @ walk_defs ?vd" by (rule iter_defs_decomp)
  have v: "case resolved_version_dir mod_path nd of
        None \<Rightarrow> walk_defs ?vd = []
      | Some (version_dir, version_nd) \<Rightarrow>
          (case ?vd of
             None \<Rightarrow> dirs_named ''Defs'' version_dir (Present version_nd) = {}
           | Some d \<Rightarrow> d \<in> dirs_named ''Defs'' version_dir (Present version_nd))"
  proof (cases "resolved_version_dir mod_path nd")
    case None
    then show ?thesis by (simp add: version_defs_dir_def walk_defs_def)
  next
    case (Some a)
    obtain vp vn where a: "a = (vp, vn)" by (cases a)
    from choose_version_dir_Inr [OF ok ab] Some a have "is_dir vn"
      by (auto simp: resolved_version_dir_def)
    moreover from rv Some a have "vn \<noteq> Unreadable" by auto
    ultimately obtain es where "vn = Dir es" by (auto simp: is_dir_iff)
    then have "case scandir (Present vn) of Inl e \<Rightarrow> e = FileNotFoundError | Inr es \<Rightarrow> True"
      by simp
    from root_defs_dir_named [OF this, of vp] Some a show ?thesis
      by (simp add: version_defs_dir_def)
  qed
  have e: "walk_defs ?rd @ walk_defs ?vd = []" if "?rd = None \<and> ?vd = None"
    using that by (simp add: walk_defs_def)
  from it files root_defs_dir_named [OF ok, of mod_path] v e show ?thesis
    by (intro exI [of _ "walk_defs ?rd"] exI [of _ "walk_defs ?vd"] exI [of _ parses])
       (simp add: set_walk_defs)
qed

lemma ex_nested_scans_succeed: "scans_succeed ex_path (Present ex_mod_nested)"
proof -
  have "about_dir ex_path (Present ex_mod_nested) = None"
    by (simp add: about_dir_def find_case_insensitive_dir_def ex_mod_nested_def
          ex_version_dir_def eval_strings)
  moreover have "resolved_version_dir ex_path (Present ex_mod_nested) =
      Some (ex_path @ [''v1.5''], ex_version_dir ''c.XML'' 6)"
    by (simp add: resolved_version_dir_def eval_enumerator eval_strings eval_examples
          ex_mod_nested_def ex_version_dir_def)
  ultimately show ?thesis
    by (simp add: scans_succeed_def ex_mod_nested_def ex_version_dir_def)
qed

lemma ex_nested_files:
  "iter_defs_xml_files ex_path (Present ex_mod_nested) =
     Inr ([(ex_path @ [''DEFS'', ''a.Xml''], \<lparr>st_mtime = Some 2, et_parse = ex_defs1\<rparr>),
           (ex_path @ [''DEFS'', ''sub'', ''b.xml''], \<lparr>st_mtime = Some 3, et_parse = ex_defs3\<rparr>),
           (ex_path @ [''v1.5'', ''Defs'', ''c.XML''], \<lparr>st_mtime = Some 6, et_parse = ex_defs1\<rparr>)],
          [])"
  by (simp add: eval_strings eval_enumerator eval_examples ex_mod_nested_def
        ex_version_dir_def)

text \<open>
  C6. Whatever the enumerator yields is a first part followed by a second part. The first
  part holds exactly the files with a name ending in \<open>.xml\<close>, case-insensitively,
  at any depth under the root-level \<open>Defs\<close> directory, which is a directory
  directly under the mod root named \<open>Defs\<close> case-insensitively when there is one.
  The second part holds exactly such files under the \<open>Defs\<close> directory of the one
  directory the version resolver returns, and is empty when the resolver returns nothing.
  Both parts are kept, and a mod with neither directory yields the empty sequence. (The
  enumerator yields, rather than raises, exactly when its directory scans succeed:
  \<open>iter_defs_xml_files_Inr\<close> and \<open>iter_defs_xml_files_Inl\<close>.)
\<close>

theorem enumerated_files_are_root_and_version_defs:
  assumes "iter_defs_xml_files mod_path nd = Inr (files, parses)"
  shows "\<exists>root_part version_part.
     files = root_part @ version_part \<and>
     set root_part = xml_files_under (root_defs_dir mod_path nd) \<and>
     set version_part = xml_files_under (version_defs_dir mod_path nd) \<and>
     (case root_defs_dir mod_path nd of
        None \<Rightarrow> dirs_named ''Defs'' mod_path nd = {}
      | Some d \<Rightarrow> d \<in> dirs_named ''Defs'' mod_path nd) \<and>
     (case resolved_version_dir mod_path nd of
        None \<Rightarrow> version_part = []
      | Some (version_dir, version_nd) \<Rightarrow>
          (case version_defs_dir mod_path nd of
             None \<Rightarrow> dirs_named ''Defs'' version_dir (Present version_nd) = {}
           | Some d \<Rightarrow> d \<in> dirs_named ''Defs'' version_dir (Present version_nd))) \<and>
     (root_defs_dir mod_path nd = None \<and> version_defs_dir mod_path nd = None \<longrightarrow>
        files = [])"
proof -
  have "scans_succeed mod_path nd"
  proof (rule ccontr)
    assume "\<not> scans_succeed mod_path nd"
    from iter_defs_xml_files_Inl [OF this] assms show False by auto
  qed
  from enumerated_files_when_scans_succeed [OF this] obtain root_part version_part ps
    where r: "iter_defs_xml_files mod_path nd = Inr (root_part @ version_part, ps)"
      and rest: "set root_part = xml_files_under (root_defs_dir mod_path nd)"
        "set version_part = xml_files_under (version_defs_dir mod_path nd)"
        "case root_defs_dir mod_path nd of
           None \<Rightarrow> dirs_named ''Defs'' mod_path nd = {}
         | Some d \<Rightarrow> d \<in> dirs_named ''Defs'' mod_path nd"
        "case resolved_version_dir mod_path nd of
           None \<Rightarrow> version_part = []
         | Some (version_dir, version_nd) \<Rightarrow>
             (case version_defs_dir mod_path nd of
                None \<Rightarrow> dirs_named ''Defs'' version_dir (Present version_nd) = {}
              | Some d \<Rightarrow> d \<in> dirs_named ''Defs'' version_dir (Present version_nd))"
        "root_defs_dir mod_path nd = None \<and> version_defs_dir mod_path nd = None \<longrightarrow>
           root_part @ version_part = []"
    by blast
  from r assms have f: "files = root_part @ version_part" by simp
  with rest show ?thesis by blast
qed

theorem enumerated_files_are_root_and_version_defs_witness:
  "iter_defs_xml_files ex_path (Present ex_mod_nested) =
     Inr ([(ex_path @ [''DEFS'', ''a.Xml''], \<lparr>st_mtime = Some 2, et_parse = ex_defs1\<rparr>),
           (ex_path @ [''DEFS'', ''sub'', ''b.xml''], \<lparr>st_mtime = Some 3, et_parse = ex_defs3\<rparr>),
           (ex_path @ [''v1.5'', ''Defs'', ''c.XML''], \<lparr>st_mtime = Some 6, et_parse = ex_defs1\<rparr>)],
          []) \<and>
   xml_files_under (root_defs_dir ex_path (Present ex_mod_nested)) \<union>
   xml_files_under (version_defs_dir ex_path (Present ex_mod_nested)) =
     {(ex_path @ [''DEFS'', ''a.Xml''], \<lparr>st_mtime = Some 2, et_parse = ex_defs1\<rparr>),
      (ex_path @ [''DEFS'', ''sub'', ''b.xml''], \<lparr>st_mtime = Some 3, et_parse = ex_defs3\<rparr>),
      (ex_path @ [''v1.5'', ''Defs'', ''c.XML''], \<lparr>st_mtime = Some 6, et_parse = ex_defs1\<rparr>)}"
proof -
  from enumerated_files_are_root_and_version_defs [OF ex_nested_files]
  obtain root_part version_part where
    "[(ex_path @ [''DEFS'', ''a.Xml''], \<lparr>st_mtime = Some 2, et_parse = ex_defs1\<rparr>),
      (ex_path @ [''DEFS'', ''sub'', ''b.xml''], \<lparr>st_mtime = Some 3, et_parse = ex_defs3\<rparr>),
      (ex_path @ [''v1.5'', ''Defs'', ''c.XML''], \<lparr>st_mtime = Some 6, et_parse = ex_defs1\<rparr>)] =
     root_part @ version_part"
    "set root_part = xml_files_under (root_defs_dir ex_path (Present ex_mod_nested))"
    "set version_part = xml_files_under (version_defs_dir ex_path (Present ex_mod_nested))"
    by blast
  then have "xml_files_under (root_defs_dir ex_path (Present ex_mod_nested)) \<union>
      xml_files_under (version_defs_dir ex_path (Present ex_mod_nested)) =
      set [(ex_path @ [''DEFS'', ''a.Xml''], \<lparr>st_mtime = Some 2, et_parse = ex_defs1\<rparr>),
           (ex_path @ [''DEFS'', ''sub'', ''b.xml''], \<lparr>st_mtime = Some 3, et_parse = ex_defs3\<rparr>),
           (ex_path @ [''v1.5'', ''Defs'', ''c.XML''], \<lparr>st_mtime = Some 6, et_parse = ex_defs1\<rparr>)]"
    by (metis set_append)
  with ex_nested_files show ?thesis by simp
qed

subsection \<open>Summary cache\<close>

lemma manifest_parses_length: "length (manifest_parses mod_path nd) \<le> 1"
  by (simp add: manifest_parses_def split: sum.splits option.splits)

lemma manifest_parses_mem:
  assumes "q \<in> set (manifest_parses mod_path nd)"
  shows "\<exists>n. about_xml_path mod_path nd = Inr (Some (q, n))"
proof (cases "about_xml_path mod_path nd")
  case (Inl e)
  with assms show ?thesis by (simp add: manifest_parses_def)
next
  case (Inr r)
  show ?thesis
  proof (cases r)
    case None
    with Inr assms show ?thesis by (simp add: manifest_parses_def)
  next
    case (Some a)
    obtain p n where "a = (p, n)" by (cases a)
    with Inr Some assms show ?thesis by (simp add: manifest_parses_def)
  qed
qed

lemma parse_supported_versions_parses:
  assumes "parse_supported_versions mod_root nd = Inr (supported, parses)"
  shows "parses = manifest_parses mod_root nd"
proof (cases "about_xml_path mod_root nd")
  case (Inl e)
  with assms show ?thesis by (simp add: parse_supported_versions_def)
next
  case (Inr r)
  show ?thesis
  proof (cases r)
    case None
    with Inr assms show ?thesis
      by (simp add: parse_supported_versions_def manifest_parses_def)
  next
    case (Some a)
    obtain p n where a: "a = (p, n)" by (cases a)
    show ?thesis
    proof (cases n)
      case (Dir es)
      with Inr Some a assms show ?thesis
        by (simp add: parse_supported_versions_def manifest_parses_def)
    next
      case Unreadable
      with Inr Some a assms show ?thesis
        by (simp add: parse_supported_versions_def manifest_parses_def)
    next
      case (File f)
      show ?thesis
      proof (cases "et_parse f")
        case ParseError
        with Inr Some a File assms show ?thesis
          by (simp add: parse_supported_versions_def manifest_parses_def)
      next
        case (Document rt)
        with Inr Some a File assms show ?thesis
          by (cases "find_supported (iter rt)")
             (simp_all add: parse_supported_versions_def manifest_parses_def)
      qed
    qed
  qed
qed

lemma choose_version_dir_parses:
  assumes "choose_version_dir mod_root nd = Inr (d, parses)"
  shows "parses = manifest_parses mod_root nd"
proof (cases "parse_supported_versions mod_root nd")
  case (Inl e)
  with assms show ?thesis by (simp add: choose_version_dir_def)
next
  case (Inr r)
  obtain supported ps where r: "r = (supported, ps)" by (cases r)
  show ?thesis
  proof (cases "find_available_version_dirs mod_root nd")
    case (Inl e)
    with Inr r assms show ?thesis by (simp add: choose_version_dir_def)
  next
    case av: (Inr available)
    from choose_version_dir_eq [OF Inr [unfolded r] av] assms have "ps = parses" by simp
    with parse_supported_versions_parses [OF Inr [unfolded r]] show ?thesis by simp
  qed
qed

lemma iter_defs_xml_files_parses:
  assumes "iter_defs_xml_files mod_path nd = Inr (files, parses)"
  shows "parses = manifest_parses mod_path nd"
proof -
  from assms obtain d where "choose_version_dir mod_path nd = Inr (d, parses)"
    by (auto simp: iter_defs_xml_files_def split: sum.splits option.splits prod.splits)
  then show ?thesis by (rule choose_version_dir_parses)
qed

lemma compute_signature_parses:
  assumes "compute_signature mod_path nd = Inr (sg, parses)"
  shows "parses = manifest_parses mod_path nd"
  using compute_signature_Inr [OF assms] iter_defs_xml_files_parses by blast

lemma find_dir_form:
  assumes "find_case_insensitive_dir parent nd name = Inr (Some (q, n))"
  shows "\<exists>a. q = parent @ [a] \<and> lower a = lower name \<and> is_dir n"
proof (cases nd rule: scandir_cases)
  case missing
  with assms show ?thesis by (simp add: find_dir_missing)
next
  case (raises e)
  with assms show ?thesis by (simp add: find_dir_raises)
next
  case (lists es)
  with assms have "first_entry (\<lambda>n d. is_dir d \<and> lower n = lower name) parent es = Some (q, n)"
    by (simp add: find_dir_Dir)
  from first_entry_SomeD [OF this] show ?thesis by auto
qed

lemma about_xml_path_form:
  assumes "about_xml_path mod_root nd = Inr (Some (q, n))"
  shows "\<exists>a x. q = mod_root @ [a, x] \<and> lower a = lower ''About'' \<and> lower x = ''about.xml''"
proof (cases "find_case_insensitive_dir mod_root nd ''About''")
  case (Inl e)
  with assms show ?thesis by (simp add: about_xml_path_def)
next
  case (Inr r)
  show ?thesis
  proof (cases r)
    case None
    with Inr assms show ?thesis by (simp add: about_xml_path_def)
  next
    case (Some d)
    obtain ad an where d: "d = (ad, an)" by (cases d)
    from find_dir_form [OF Inr [unfolded Some d]] obtain a
      where ad: "ad = mod_root @ [a]" and a: "lower a = lower ''About''" by blast
    show ?thesis
    proof (cases an)
      case (File f)
      with assms Inr Some d show ?thesis by (simp add: about_xml_path_def)
    next
      case Unreadable
      with assms Inr Some d show ?thesis by (simp add: about_xml_path_def)
    next
      case (Dir es)
      with assms Inr Some d
      have "first_entry (\<lambda>name n. is_file n \<and> lower name = ''about.xml'') ad es = Some (q, n)"
        by (simp add: about_xml_path_def)
      from first_entry_SomeD [OF this] obtain x where "q = ad @ [x]" "lower x = ''about.xml''"
        by blast
      with ad a show ?thesis by simp
    qed
  qed
qed

lemma available_loop_names:
  assumes "\<forall>(k, q, n) \<in> set mapping. \<exists>name. q = mod_root @ [name] \<and>
             normalize_version_string name = Some k"
  shows "\<forall>(k, q, n) \<in> set (available_loop mod_root es mapping).
           \<exists>name. q = mod_root @ [name] \<and> normalize_version_string name = Some k"
  using assms
proof (induction es arbitrary: mapping)
  case Nil
  then show ?case by simp
next
  case (Cons e es)
  obtain name nd where e: "e = (name, nd)" by (cases e)
  show ?case
  proof (cases "is_dir nd \<and> normalize_version_string name \<noteq> None")
    case False
    then have "available_loop mod_root (e # es) mapping = available_loop mod_root es mapping"
      unfolding e by (cases "normalize_version_string name") simp_all
    with Cons.IH [OF Cons.prems] show ?thesis by simp
  next
    case True
    then obtain nv where nv: "normalize_version_string name = Some nv" and d: "is_dir nd"
      by blast
    let ?m = "AList.update nv (mod_root @ [name], nd) mapping"
    have "\<forall>(k, q, n) \<in> set ?m. \<exists>name. q = mod_root @ [name] \<and>
             normalize_version_string name = Some k"
      using Cons.prems nv by (auto dest!: set_update_cases)
    then have "\<forall>(k, q, n) \<in> set (available_loop mod_root es ?m).
           \<exists>name. q = mod_root @ [name] \<and> normalize_version_string name = Some k"
      by (rule Cons.IH)
    moreover have "available_loop mod_root (e # es) mapping = available_loop mod_root es ?m"
      unfolding e using nv d by simp
    ultimately show ?thesis by simp
  qed
qed

lemma find_available_version_dirs_names:
  assumes "find_available_version_dirs mod_root nd = Inr available"
  shows "\<forall>(k, q, n) \<in> set available.
           \<exists>name. q = mod_root @ [name] \<and> normalize_version_string name = Some k"
proof (cases nd rule: scandir_cases)
  case missing
  with assms show ?thesis by (auto simp: find_available_version_dirs_def)
next
  case (raises e)
  with assms show ?thesis by (cases e) (simp_all add: find_available_version_dirs_def)
next
  case (lists es)
  with assms have "available = available_loop mod_root es []"
    by (simp add: find_available_version_dirs_def)
  moreover have "\<forall>(k, q, n) \<in> set (available_loop mod_root es []).
           \<exists>name. q = mod_root @ [name] \<and> normalize_version_string name = Some k"
    by (rule available_loop_names) simp
  ultimately show ?thesis by simp
qed

lemma resolved_version_dir_form:
  assumes "resolved_version_dir mod_root nd = Some (vp, vn)"
  shows "\<exists>v k. vp = mod_root @ [v] \<and> normalize_version_string v = Some k"
proof -
  from assms obtain parses where ch: "choose_version_dir mod_root nd = Inr (Some (vp, vn), parses)"
    by (auto simp: resolved_version_dir_def split: sum.splits)
  then obtain supported ps where sup: "parse_supported_versions mod_root nd = Inr (supported, ps)"
    by (cases "parse_supported_versions mod_root nd") (auto simp: choose_version_dir_def)
  from ch sup obtain available where av: "find_available_version_dirs mod_root nd = Inr available"
    by (cases "find_available_version_dirs mod_root nd") (auto simp: choose_version_dir_def)
  let ?C = "set (List.map_filter normalize_version_string supported) \<inter> fst ` set available"
  from ch choose_version_dir_eq [OF sup av]
  have "(if ?C \<noteq> {} then map_of available (Max ?C)
         else if available \<noteq> [] then map_of available (Max (fst ` set available))
         else None) = Some (vp, vn)"
    by (simp add: Let_def)
  then have "\<exists>k. map_of available k = Some (vp, vn)"
    by (metis option.distinct(1))
  then obtain k where "map_of available k = Some (vp, vn)" ..
  then have "(k, vp, vn) \<in> set available" by (rule map_of_SomeD)
  with find_available_version_dirs_names [OF av] show ?thesis by auto
qed

lemma digits_lower: "\<forall>c \<in> set ''0123456789''. lower_char c = c"
  by (simp add: lower_char_def)

lemma is_digit_lower_char: "is_digit c \<Longrightarrow> lower_char c = c"
  using digits_lower by (simp only: is_digit_def)

lemma about_no_digit: "\<forall>c \<in> set (lower ''About''). \<not> is_digit c"
  by (simp add: lower_def lower_char_def is_digit_def)

lemma re_search_has_digit: "re_search s = Some g \<Longrightarrow> \<exists>c \<in> set s. is_digit c"
proof (induction s rule: re_search.induct)
  case 1
  then show ?case by simp
next
  case (2 c cs)
  show ?case
  proof (cases "is_digit c")
    case True
    then show ?thesis by auto
  next
    case False
    with 2 show ?thesis by simp
  qed
qed

lemma about_is_no_version:
  assumes "lower a = lower ''About''"
  shows "normalize_version_string a = None"
proof (cases "re_search a")
  case None
  then show ?thesis by (simp add: normalize_version_string_def)
next
  case (Some g)
  then obtain c where c: "c \<in> set a" "is_digit c"
    using re_search_has_digit by blast
  then have "lower_char c \<in> set (lower a)" by (simp add: lower_def)
  with c(2) have "c \<in> set (lower ''About'')"
    by (simp only: is_digit_lower_char assms)
  with about_no_digit c(2) show ?thesis by blast
qed

lemma about_is_no_defs: "lower a = lower ''About'' \<Longrightarrow> lower a \<noteq> lower ''Defs''"
  by (simp add: lower_def lower_char_def)

lemma manifest_is_no_definition_file:
  assumes "iter_defs_xml_files mod_path nd = Inr (files, parses)"
  shows "set (manifest_parses mod_path nd) \<inter> fst ` set files = {}"
proof (rule ccontr)
  assume "set (manifest_parses mod_path nd) \<inter> fst ` set files \<noteq> {}"
  then obtain q f where q: "q \<in> set (manifest_parses mod_path nd)" and qf: "(q, f) \<in> set files"
    by auto
  from manifest_parses_mem [OF q] obtain n
    where "about_xml_path mod_path nd = Inr (Some (q, n))" ..
  from about_xml_path_form [OF this] obtain a x
    where qa: "q = mod_path @ [a, x]" and a: "lower a = lower ''About''" by blast
  from iter_defs_decomp [OF assms] qf
  consider (root) "(q, f) \<in> xml_files_under (root_defs_dir mod_path nd)"
    | (version) "(q, f) \<in> xml_files_under (version_defs_dir mod_path nd)"
    by (auto simp: set_walk_defs)
  then show False
  proof cases
    case root
    then obtain dp dn rest where rd: "root_defs_dir mod_path nd = Some (dp, dn)"
      and qd: "q = dp @ rest"
      by (auto simp: xml_files_under_def split: option.splits)
    from rd have "find_case_insensitive_dir mod_path nd ''Defs'' = Inr (Some (dp, dn))"
      by (auto simp: root_defs_dir_def split: sum.splits)
    from find_dir_form [OF this] obtain d where "dp = mod_path @ [d]" "lower d = lower ''Defs''"
      by blast
    with qd qa have "a = d" by simp
    with \<open>lower d = lower ''Defs''\<close> about_is_no_defs [OF a] show False by simp
  next
    case version
    then obtain dp dn rest where vd: "version_defs_dir mod_path nd = Some (dp, dn)"
      and qd: "q = dp @ rest"
      by (auto simp: xml_files_under_def split: option.splits)
    from vd obtain vp vn where rv: "resolved_version_dir mod_path nd = Some (vp, vn)"
      and "root_defs_dir vp (Present vn) = Some (dp, dn)"
      by (auto simp: version_defs_dir_def split: option.splits)
    then have "find_case_insensitive_dir vp (Present vn) ''Defs'' = Inr (Some (dp, dn))"
      by (auto simp: root_defs_dir_def split: sum.splits)
    from find_dir_form [OF this] obtain d where dp: "dp = vp @ [d]" by blast
    from resolved_version_dir_form [OF rv] obtain v k
      where "vp = mod_path @ [v]" "normalize_version_string v = Some k" by blast
    with dp qd qa have "a = v" by simp
    with \<open>normalize_version_string v = Some k\<close> about_is_no_version [OF a] show False by simp
  qed
qed

text \<open>
  C2, as amended. When a stored entry exists for the key and its signature equals the
  current one, the call returns the stored summary and leaves the cache as it is; it
  parses no definition file, but it does parse the manifest when there is one, since the
  signature is computed through the version resolver: the log of the call holds at most
  one path, that of a file named \<open>about.xml\<close> in a directory named \<open>About\<close>
  directly under the mod root (both up to case), which is none of the enumerated files.
  After a call that returned, a second call on the same file system returns the same
  summary, leaves the cache as the first call left it, and parses the manifest only.
\<close>

theorem cache_hit_returns_stored_summary:
  "(compute_signature mod_path nd = Inr (sg, parses) \<longrightarrow>
      cache (resolve mod_path) = Some (sg, s) \<longrightarrow>
      get_defs_summary resolve cache mod_path nd =
        Inr (s, cache, manifest_parses mod_path nd)) \<and>
   (get_defs_summary resolve cache mod_path nd = Inr (s1, cache1, plog1) \<longrightarrow>
      get_defs_summary resolve cache1 mod_path nd =
        Inr (s1, cache1, manifest_parses mod_path nd)) \<and>
   length (manifest_parses mod_path nd) \<le> 1 \<and>
   (\<forall>q \<in> set (manifest_parses mod_path nd).
      \<exists>a x. q = mod_path @ [a, x] \<and> lower a = lower ''About'' \<and> lower x = ''about.xml'') \<and>
   (iter_defs_xml_files mod_path nd = Inr (files, parses') \<longrightarrow>
      set (manifest_parses mod_path nd) \<inter> fst ` set files = {})"
proof (intro conjI impI ballI)
  assume sg: "compute_signature mod_path nd = Inr (sg, parses)"
    and c: "cache (resolve mod_path) = Some (sg, s)"
  from get_hit [where cache = cache and resolve = resolve, OF sg c]
    compute_signature_parses [OF sg]
  show "get_defs_summary resolve cache mod_path nd =
      Inr (s, cache, manifest_parses mod_path nd)"
    by (simp add: get_defs_summary_def)
next
  assume "get_defs_summary resolve cache mod_path nd = Inr (s1, cache1, plog1)"
  then have "get resolve cache mod_path nd = Inr (s1, cache1, plog1)"
    by (simp add: get_defs_summary_def)
  then show "get_defs_summary resolve cache1 mod_path nd =
      Inr (s1, cache1, manifest_parses mod_path nd)"
  proof (cases rule: get_cases)
    case (hit sig)
    from get_hit [where cache = cache and resolve = resolve, OF hit(3) hit(1)]
      compute_signature_parses [OF hit(3)] hit(2)
    show ?thesis by (simp add: get_defs_summary_def)
  next
    case (miss sig files ps)
    from miss(5) have c1: "cache1 (resolve mod_path) = Some (sig, s1)" by simp
    from get_hit [where cache = cache1 and resolve = resolve, OF miss(1) c1]
      compute_signature_parses [OF miss(1)]
    show ?thesis by (simp add: get_defs_summary_def)
  qed
next
  show "length (manifest_parses mod_path nd) \<le> 1" by (rule manifest_parses_length)
next
  fix q assume "q \<in> set (manifest_parses mod_path nd)"
  then obtain n where "about_xml_path mod_path nd = Inr (Some (q, n))"
    using manifest_parses_mem by blast
  then show "\<exists>a x. q = mod_path @ [a, x] \<and> lower a = lower ''About'' \<and> lower x = ''about.xml''"
    by (rule about_xml_path_form)
next
  assume "iter_defs_xml_files mod_path nd = Inr (files, parses')"
  then show "set (manifest_parses mod_path nd) \<inter> fst ` set files = {}"
    by (rule manifest_is_no_definition_file)
qed

theorem cache_hit_returns_stored_summary_witness:
  "compute_signature ex_path (Present ex_mod_versions) =
     Inr ((2, 4), [ex_path @ [''About'', ''About.xml'']]) \<and>
   get_defs_summary ex_resolve [ex_resolve ex_path \<mapsto> ((2, 4), ex_summary)] ex_path
       (Present ex_mod_versions) =
     Inr (ex_summary, [ex_resolve ex_path \<mapsto> ((2, 4), ex_summary)],
          manifest_parses ex_path (Present ex_mod_versions)) \<and>
   manifest_parses ex_path (Present ex_mod_versions) = [ex_path @ [''About'', ''About.xml'']]"
proof -
  have c: "[ex_resolve ex_path \<mapsto> ((2::nat, 4::real), ex_summary)] (ex_resolve ex_path) =
      Some ((2, 4), ex_summary)" by simp
  from cache_hit_returns_stored_summary [where resolve = ex_resolve
      and cache = "[ex_resolve ex_path \<mapsto> ((2, 4), ex_summary)]",
      THEN conjunct1, rule_format, OF ex_versions_signature c]
  have g: "get_defs_summary ex_resolve [ex_resolve ex_path \<mapsto> ((2, 4), ex_summary)] ex_path
       (Present ex_mod_versions) =
     Inr (ex_summary, [ex_resolve ex_path \<mapsto> ((2, 4), ex_summary)],
          manifest_parses ex_path (Present ex_mod_versions))" .
  with ex_versions_second_get
  have "manifest_parses ex_path (Present ex_mod_versions) = [ex_path @ [''About'', ''About.xml'']]"
    by simp
  with g ex_versions_signature show ?thesis by simp
qed

text \<open>
  The claim as stated fails: for a mod with a manifest, a call that finds the entry
  stored by an earlier call, with the signature unchanged, returns the cached summary
  and still parses one file, \<open>About/About.xml\<close>.
\<close>

theorem second_call_parses_the_manifest:
  "reachable [ex_resolve ex_path \<mapsto> ((2, 4), ex_summary)] \<and>
   compute_signature ex_path (Present ex_mod_versions) =
     Inr ((2, 4), [ex_path @ [''About'', ''About.xml'']]) \<and>
   get_defs_summary ex_resolve [ex_resolve ex_path \<mapsto> ((2, 4), ex_summary)] ex_path
       (Present ex_mod_versions) =
     Inr (ex_summary, [ex_resolve ex_path \<mapsto> ((2, 4), ex_summary)],
          [ex_path @ [''About'', ''About.xml'']])"
  using reachable.call [OF reachable.initial ex_versions_first_get]
    ex_versions_signature ex_versions_second_get
  by (simp only: simp_thms)

end
